theory Spec2Isabelle
  imports Main "HOL-Library.Word"
begin

unbundle bit_operations_syntax

section \<open>Character classification (include/char_classifier.hpp)\<close>

text \<open>
  A byte of the input (\<^verbatim>\<open>uint8_t\<close>) is a \<^typ>\<open>char\<close>: the HOL character type is exactly
  one 8-bit byte, \<^term>\<open>of_char\<close> reads its value 0..255. The class flags are 8-bit words
  combined with bitwise OR and tested with bitwise AND, as in the header.
\<close>

definition CHAR_NONE :: "8 word" where "CHAR_NONE = 0x00"
definition CHAR_WHITESPACE :: "8 word" where "CHAR_WHITESPACE = 0x01"
definition CHAR_ALPHA_UPPER :: "8 word" where "CHAR_ALPHA_UPPER = 0x02"
definition CHAR_ALPHA_LOWER :: "8 word" where "CHAR_ALPHA_LOWER = 0x04"
definition CHAR_DIGIT :: "8 word" where "CHAR_DIGIT = 0x08"
definition CHAR_UNDERSCORE :: "8 word" where "CHAR_UNDERSCORE = 0x10"
definition CHAR_QUOTE :: "8 word" where "CHAR_QUOTE = 0x20"
definition CHAR_OPERATOR :: "8 word" where "CHAR_OPERATOR = 0x40"
definition CHAR_DELIMITER :: "8 word" where "CHAR_DELIMITER = 0x80"

definition CHAR_ALPHA :: "8 word" where
  "CHAR_ALPHA = CHAR_ALPHA_UPPER OR CHAR_ALPHA_LOWER"
definition CHAR_IDENT_START :: "8 word" where
  "CHAR_IDENT_START = CHAR_ALPHA OR CHAR_UNDERSCORE"
definition CHAR_IDENT_CONT :: "8 word" where
  "CHAR_IDENT_CONT = CHAR_IDENT_START OR CHAR_DIGIT"

text \<open>The 256 entries of \<^verbatim>\<open>char_lookup_table\<close>, in the order of the header, eight per row.\<close>

definition char_lookup_table :: "8 word list" where
  "char_lookup_table =
    [
     0, 0, 0, 0, 0, 0, 0, 0,
     0, CHAR_WHITESPACE, CHAR_WHITESPACE, 0, 0, CHAR_WHITESPACE, 0, 0,
     0, 0, 0, 0, 0, 0, 0, 0,
     0, 0, 0, 0, 0, 0, 0, 0,
     CHAR_WHITESPACE, CHAR_OPERATOR, CHAR_QUOTE, 0, 0, CHAR_OPERATOR, CHAR_OPERATOR, CHAR_QUOTE,
     CHAR_DELIMITER, CHAR_DELIMITER, CHAR_OPERATOR, CHAR_OPERATOR, CHAR_DELIMITER, CHAR_OPERATOR, CHAR_OPERATOR, CHAR_OPERATOR,
     CHAR_DIGIT, CHAR_DIGIT, CHAR_DIGIT, CHAR_DIGIT, CHAR_DIGIT, CHAR_DIGIT, CHAR_DIGIT, CHAR_DIGIT,
     CHAR_DIGIT, CHAR_DIGIT, CHAR_DELIMITER, CHAR_DELIMITER, CHAR_OPERATOR, CHAR_OPERATOR, CHAR_OPERATOR, 0,
     0, CHAR_ALPHA_UPPER, CHAR_ALPHA_UPPER, CHAR_ALPHA_UPPER, CHAR_ALPHA_UPPER, CHAR_ALPHA_UPPER, CHAR_ALPHA_UPPER, CHAR_ALPHA_UPPER,
     CHAR_ALPHA_UPPER, CHAR_ALPHA_UPPER, CHAR_ALPHA_UPPER, CHAR_ALPHA_UPPER, CHAR_ALPHA_UPPER, CHAR_ALPHA_UPPER, CHAR_ALPHA_UPPER, CHAR_ALPHA_UPPER,
     CHAR_ALPHA_UPPER, CHAR_ALPHA_UPPER, CHAR_ALPHA_UPPER, CHAR_ALPHA_UPPER, CHAR_ALPHA_UPPER, CHAR_ALPHA_UPPER, CHAR_ALPHA_UPPER, CHAR_ALPHA_UPPER,
     CHAR_ALPHA_UPPER, CHAR_ALPHA_UPPER, CHAR_ALPHA_UPPER, CHAR_DELIMITER, 0, CHAR_DELIMITER, CHAR_OPERATOR, CHAR_UNDERSCORE,
     0, CHAR_ALPHA_LOWER, CHAR_ALPHA_LOWER, CHAR_ALPHA_LOWER, CHAR_ALPHA_LOWER, CHAR_ALPHA_LOWER, CHAR_ALPHA_LOWER, CHAR_ALPHA_LOWER,
     CHAR_ALPHA_LOWER, CHAR_ALPHA_LOWER, CHAR_ALPHA_LOWER, CHAR_ALPHA_LOWER, CHAR_ALPHA_LOWER, CHAR_ALPHA_LOWER, CHAR_ALPHA_LOWER, CHAR_ALPHA_LOWER,
     CHAR_ALPHA_LOWER, CHAR_ALPHA_LOWER, CHAR_ALPHA_LOWER, CHAR_ALPHA_LOWER, CHAR_ALPHA_LOWER, CHAR_ALPHA_LOWER, CHAR_ALPHA_LOWER, CHAR_ALPHA_LOWER,
     CHAR_ALPHA_LOWER, CHAR_ALPHA_LOWER, CHAR_ALPHA_LOWER, CHAR_DELIMITER, CHAR_OPERATOR, CHAR_DELIMITER, CHAR_OPERATOR, 0,
     0, 0, 0, 0, 0, 0, 0, 0,
     0, 0, 0, 0, 0, 0, 0, 0,
     0, 0, 0, 0, 0, 0, 0, 0,
     0, 0, 0, 0, 0, 0, 0, 0,
     0, 0, 0, 0, 0, 0, 0, 0,
     0, 0, 0, 0, 0, 0, 0, 0,
     0, 0, 0, 0, 0, 0, 0, 0,
     0, 0, 0, 0, 0, 0, 0, 0,
     0, 0, 0, 0, 0, 0, 0, 0,
     0, 0, 0, 0, 0, 0, 0, 0,
     0, 0, 0, 0, 0, 0, 0, 0,
     0, 0, 0, 0, 0, 0, 0, 0,
     0, 0, 0, 0, 0, 0, 0, 0,
     0, 0, 0, 0, 0, 0, 0, 0,
     0, 0, 0, 0, 0, 0, 0, 0,
     0, 0, 0, 0, 0, 0, 0, 0
    ]"

definition is_identifier_start :: "char \<Rightarrow> bool" where
  "is_identifier_start ch \<longleftrightarrow> ((char_lookup_table ! of_char ch) AND CHAR_IDENT_START) \<noteq> 0"

definition is_identifier_cont :: "char \<Rightarrow> bool" where
  "is_identifier_cont ch \<longleftrightarrow> ((char_lookup_table ! of_char ch) AND CHAR_IDENT_CONT) \<noteq> 0"

definition is_digit :: "char \<Rightarrow> bool" where
  "is_digit ch \<longleftrightarrow> ((char_lookup_table ! of_char ch) AND CHAR_DIGIT) \<noteq> 0"

definition is_whitespace :: "char \<Rightarrow> bool" where
  "is_whitespace ch \<longleftrightarrow> ((char_lookup_table ! of_char ch) AND CHAR_WHITESPACE) \<noteq> 0"

definition is_operator :: "char \<Rightarrow> bool" where
  "is_operator ch \<longleftrightarrow> ((char_lookup_table ! of_char ch) AND CHAR_OPERATOR) \<noteq> 0"

definition is_delimiter :: "char \<Rightarrow> bool" where
  "is_delimiter ch \<longleftrightarrow> ((char_lookup_table ! of_char ch) AND CHAR_DELIMITER) \<noteq> 0"

definition is_quote :: "char \<Rightarrow> bool" where
  "is_quote ch \<longleftrightarrow> ((char_lookup_table ! of_char ch) AND CHAR_QUOTE) \<noteq> 0"

section \<open>Tokens and tokenizer state (include/simd_tokenizer.hpp)\<close>

text \<open>
  Modelled from the spec: the enumeration \<^verbatim>\<open>Keyword\<close> of keywords.hpp is not part of the
  sources at hand. The spec describes its values as a canonical keyword id or the sentinel
  "unknown"; the tokenizer itself only ever names \<^verbatim>\<open>Keyword::UNKNOWN\<close>.
\<close>

datatype Keyword = UNKNOWN | KW nat

datatype TokenType =
  Unknown | Keyword | Identifier | Number | String | Operator | Delimiter
  | Whitespace | Comment | EndOfFile

text \<open>
  A \<^verbatim>\<open>std::string_view\<close> into the input buffer is a pointer and a length; the pointer is kept
  as its offset from the start of the buffer. \<open>view\<close> reads the bytes it denotes.
\<close>

record string_view =
  sv_data :: nat
  sv_size :: nat

definition view :: "string \<Rightarrow> string_view \<Rightarrow> string" where
  "view inp v = take (sv_size v) (drop (sv_data v) inp)"

record Token =
  type :: TokenType
  "value" :: string_view
  keyword_id :: Keyword
  line :: nat
  column :: nat

text \<open>
  The members \<^verbatim>\<open>input_\<close>, \<^verbatim>\<open>position_\<close>, \<^verbatim>\<open>line_\<close>, \<^verbatim>\<open>column_\<close> are the fields
  \<open>m_input\<close>, \<open>m_position\<close>, \<open>m_line\<close>, \<open>m_column\<close>. The buffer \<^verbatim>\<open>(input_, input_size_)\<close>
  is the byte list \<open>m_input\<close>, so \<^verbatim>\<open>input_size_\<close> is its length. Offsets, lines and
  columns are \<^verbatim>\<open>size_t\<close>; none of them exceeds the buffer length plus one, so they are
  natural numbers here.
\<close>

record SimdTokenizer =
  m_input :: string
  m_position :: nat
  m_line :: nat
  m_column :: nat

abbreviation m_input_size :: "SimdTokenizer \<Rightarrow> nat" where
  "m_input_size t \<equiv> length (m_input t)"

definition new_tokenizer :: "string \<Rightarrow> SimdTokenizer" where
  "new_tokenizer inp = \<lparr>m_input = inp, m_position = 0, m_line = 1, m_column = 1\<rparr>"

section \<open>The scanners (src/simd_tokenizer.cpp)\<close>

text \<open>
  Every scanner takes the tokenizer state and returns the token with the state it leaves.
  The two keyword look-ups of keywords.hpp are parameters: \<open>find_keyword\<close> maps a lexeme
  to its id, and \<open>is_keyword_simd\<close> gives the id that the SIMD matcher leaves in \<^verbatim>\<open>kw\<close>
  (it is entered with \<^verbatim>\<open>kw == UNKNOWN\<close> only).
\<close>

function ident_loop :: "SimdTokenizer \<Rightarrow> SimdTokenizer" where
  "ident_loop t =
     (if m_position t < m_input_size t then
        (if \<not> is_identifier_cont (m_input t ! m_position t) then t
         else ident_loop (t\<lparr>m_position := m_position t + 1, m_column := m_column t + 1\<rparr>))
      else t)"
  by pat_completeness auto
termination
  by (relation "measure (\<lambda>t. m_input_size t - m_position t)") auto

definition scan_identifier_or_keyword ::
  "(string \<Rightarrow> Keyword) \<Rightarrow> (string \<Rightarrow> Keyword) \<Rightarrow> nat \<Rightarrow> nat \<Rightarrow> nat \<Rightarrow> SimdTokenizer
     \<Rightarrow> Token \<times> SimdTokenizer" where
  "scan_identifier_or_keyword find_keyword is_keyword_simd start start_line start_column t =
     (let t' = ident_loop t;
          v = \<lparr>sv_data = start, sv_size = m_position t' - start\<rparr>;
          kw = find_keyword (view (m_input t') v);
          ty = (if kw \<noteq> UNKNOWN then Keyword else Identifier);
          kw' = (if kw = UNKNOWN \<and> sv_size v \<le> 32
                 then is_keyword_simd (view (m_input t') v) else kw);
          ty' = (if kw = UNKNOWN \<and> sv_size v \<le> 32 \<and> kw' \<noteq> UNKNOWN then Keyword else ty)
      in (\<lparr>type = ty', value = v, keyword_id = kw', line = start_line, column = start_column\<rparr>,
          t'))"

function number_loop :: "bool \<Rightarrow> bool \<Rightarrow> SimdTokenizer \<Rightarrow> SimdTokenizer" where
  "number_loop has_dot has_exp t =
     (if m_position t < m_input_size t then
        (let ch = m_input t ! m_position t in
         if is_digit ch then
           number_loop has_dot has_exp
             (t\<lparr>m_position := m_position t + 1, m_column := m_column t + 1\<rparr>)
         else if ch = CHR ''.'' \<and> \<not> has_dot \<and> \<not> has_exp then
           number_loop True has_exp
             (t\<lparr>m_position := m_position t + 1, m_column := m_column t + 1\<rparr>)
         else if (ch = CHR ''e'' \<or> ch = CHR ''E'') \<and> \<not> has_exp then
           number_loop has_dot True
             (let t1 = t\<lparr>m_position := m_position t + 1, m_column := m_column t + 1\<rparr> in
              if m_position t1 < m_input_size t1
                 \<and> (m_input t1 ! m_position t1 = CHR ''+''
                      \<or> m_input t1 ! m_position t1 = CHR ''-'')
              then t1\<lparr>m_position := m_position t1 + 1, m_column := m_column t1 + 1\<rparr>
              else t1)
         else t)
      else t)"
  by pat_completeness auto
termination
  by (relation "measure (\<lambda>(d, e, t). m_input_size t - m_position t)") (auto simp: Let_def)

definition scan_number :: "nat \<Rightarrow> nat \<Rightarrow> nat \<Rightarrow> SimdTokenizer \<Rightarrow> Token \<times> SimdTokenizer" where
  "scan_number start start_line start_column t =
     (let t' = number_loop False False t
      in (\<lparr>type = Number, value = \<lparr>sv_data = start, sv_size = m_position t' - start\<rparr>,
           keyword_id = UNKNOWN, line = start_line, column = start_column\<rparr>, t'))"

function string_loop :: "char \<Rightarrow> SimdTokenizer \<Rightarrow> SimdTokenizer" where
  "string_loop quote t =
     (if m_position t < m_input_size t then
        (if m_input t ! m_position t = quote then
           (if m_position t + 1 < m_input_size t \<and> m_input t ! (m_position t + 1) = quote
            then string_loop quote
                   (t\<lparr>m_position := m_position t + 2, m_column := m_column t + 2\<rparr>)
            else t\<lparr>m_position := m_position t + 1, m_column := m_column t + 1\<rparr>)
         else if m_input t ! m_position t = CHR 0x0A then
           string_loop quote
             (t\<lparr>m_position := m_position t + 1, m_line := m_line t + 1, m_column := 1\<rparr>)
         else
           string_loop quote
             (t\<lparr>m_position := m_position t + 1, m_column := m_column t + 1\<rparr>))
      else t)"
  by pat_completeness auto
termination
  by (relation "measure (\<lambda>(q, t). m_input_size t - m_position t)") auto

definition scan_string ::
  "nat \<Rightarrow> nat \<Rightarrow> nat \<Rightarrow> char \<Rightarrow> SimdTokenizer \<Rightarrow> Token \<times> SimdTokenizer" where
  "scan_string start start_line start_column quote t =
     (let t' = string_loop quote
                 (t\<lparr>m_position := m_position t + 1, m_column := m_column t + 1\<rparr>)
      in (\<lparr>type = String, value = \<lparr>sv_data = start, sv_size = m_position t' - start\<rparr>,
           keyword_id = UNKNOWN, line = start_line, column = start_column\<rparr>, t'))"

function comment_loop :: "SimdTokenizer \<Rightarrow> SimdTokenizer" where
  "comment_loop t =
     (if m_position t < m_input_size t then
        (if m_input t ! m_position t = CHR 0x0A
         then t\<lparr>m_position := m_position t + 1, m_line := m_line t + 1, m_column := 1\<rparr>
         else comment_loop (t\<lparr>m_position := m_position t + 1, m_column := m_column t + 1\<rparr>))
      else t)"
  by pat_completeness auto
termination
  by (relation "measure (\<lambda>t. m_input_size t - m_position t)") auto

definition scan_comment :: "nat \<Rightarrow> nat \<Rightarrow> nat \<Rightarrow> SimdTokenizer \<Rightarrow> Token \<times> SimdTokenizer" where
  "scan_comment start start_line start_column t =
     (let t' = comment_loop (t\<lparr>m_position := m_position t + 2, m_column := m_column t + 2\<rparr>)
      in (\<lparr>type = Comment, value = \<lparr>sv_data = start, sv_size = m_position t' - start\<rparr>,
           keyword_id = UNKNOWN, line = start_line, column = start_column\<rparr>, t'))"

function block_comment_loop :: "SimdTokenizer \<Rightarrow> SimdTokenizer" where
  "block_comment_loop t =
     (if m_position t + 1 < m_input_size t then
        (if m_input t ! m_position t = CHR ''*'' \<and> m_input t ! (m_position t + 1) = CHR ''/''
         then t\<lparr>m_position := m_position t + 2, m_column := m_column t + 2\<rparr>
         else if m_input t ! m_position t = CHR 0x0A then
           block_comment_loop
             (t\<lparr>m_position := m_position t + 1, m_line := m_line t + 1, m_column := 1\<rparr>)
         else
           block_comment_loop
             (t\<lparr>m_position := m_position t + 1, m_column := m_column t + 1\<rparr>))
      else t)"
  by pat_completeness auto
termination
  by (relation "measure (\<lambda>t. m_input_size t - m_position t)") auto

definition scan_block_comment ::
  "nat \<Rightarrow> nat \<Rightarrow> nat \<Rightarrow> SimdTokenizer \<Rightarrow> Token \<times> SimdTokenizer" where
  "scan_block_comment start start_line start_column t =
     (let t' = block_comment_loop
                 (t\<lparr>m_position := m_position t + 2, m_column := m_column t + 2\<rparr>)
      in (\<lparr>type = Comment, value = \<lparr>sv_data = start, sv_size = m_position t' - start\<rparr>,
           keyword_id = UNKNOWN, line = start_line, column = start_column\<rparr>, t'))"

text \<open>The ten pairs of the cascade in \<^verbatim>\<open>scan_operator_or_delimiter\<close>, in its order.\<close>

definition two_byte_operator :: "char \<Rightarrow> char \<Rightarrow> bool" where
  "two_byte_operator ch nxt \<longleftrightarrow>
     (ch = CHR ''<'' \<and> (nxt = CHR ''='' \<or> nxt = CHR ''>'')) \<or>
     (ch = CHR ''>'' \<and> nxt = CHR ''='') \<or>
     (ch = CHR ''!'' \<and> nxt = CHR ''='') \<or>
     (ch = CHR ''='' \<and> nxt = CHR ''='') \<or>
     (ch = CHR ''|'' \<and> nxt = CHR ''|'') \<or>
     (ch = CHR ''&'' \<and> nxt = CHR ''&'') \<or>
     (ch = CHR '':'' \<and> nxt = CHR '':'') \<or>
     (ch = CHR ''<'' \<and> nxt = CHR ''<'') \<or>
     (ch = CHR ''>'' \<and> nxt = CHR ''>'')"

definition scan_operator_or_delimiter ::
  "nat \<Rightarrow> nat \<Rightarrow> nat \<Rightarrow> SimdTokenizer \<Rightarrow> Token \<times> SimdTokenizer" where
  "scan_operator_or_delimiter start start_line start_column t =
     (let ch = m_input t ! m_position t;
          t1 = t\<lparr>m_position := m_position t + 1, m_column := m_column t + 1\<rparr>;
          ty = (if is_delimiter ch then Delimiter else Operator);
          t2 = (if m_position t1 < m_input_size t1
                   \<and> two_byte_operator ch (m_input t1 ! m_position t1)
                then t1\<lparr>m_position := m_position t1 + 1, m_column := m_column t1 + 1\<rparr>
                else t1)
      in (\<lparr>type = ty, value = \<lparr>sv_data = start, sv_size = m_position t2 - start\<rparr>,
           keyword_id = UNKNOWN, line = start_line, column = start_column\<rparr>, t2))"

text \<open>
  At the end of the buffer \<^verbatim>\<open>next_token\<close> returns the \<open>EndOfFile\<close> token, whose value is
  the empty string literal; it is kept as the empty view at the current offset.
\<close>

definition next_token ::
  "(string \<Rightarrow> Keyword) \<Rightarrow> (string \<Rightarrow> Keyword) \<Rightarrow> SimdTokenizer \<Rightarrow> Token \<times> SimdTokenizer" where
  "next_token find_keyword is_keyword_simd t =
     (if m_position t \<ge> m_input_size t then
        (\<lparr>type = EndOfFile, value = \<lparr>sv_data = m_position t, sv_size = 0\<rparr>,
          keyword_id = UNKNOWN, line = m_line t, column = m_column t\<rparr>, t)
      else
        (let start = m_position t;
             start_line = m_line t;
             start_column = m_column t;
             first_char = m_input t ! m_position t
         in if is_identifier_start first_char then
              scan_identifier_or_keyword find_keyword is_keyword_simd
                start start_line start_column t
            else if is_digit first_char then
              scan_number start start_line start_column t
            else if is_quote first_char then
              scan_string start start_line start_column first_char t
            else if first_char = CHR ''-'' \<and> m_position t + 1 < m_input_size t
                    \<and> m_input t ! (m_position t + 1) = CHR ''-'' then
              scan_comment start start_line start_column t
            else if first_char = CHR ''/'' \<and> m_position t + 1 < m_input_size t
                    \<and> m_input t ! (m_position t + 1) = CHR ''*'' then
              scan_block_comment start start_line start_column t
            else
              scan_operator_or_delimiter start start_line start_column t))"

text \<open>
  \<^verbatim>\<open>update_position\<close> reads \<^verbatim>\<open>input_[position_]\<close> without a bounds test; \<open>tokenize\<close>
  calls it with the count that \<^verbatim>\<open>skip_whitespace\<close> returned for the rest of the buffer,
  which is at most the number of bytes left (\<open>skip_whitespace_le\<close>), so every read is
  inside the buffer.
\<close>

primrec update_position :: "nat \<Rightarrow> SimdTokenizer \<Rightarrow> SimdTokenizer" where
  "update_position 0 t = t"
| "update_position (Suc n) t =
     update_position n
       (if m_input t ! m_position t = CHR 0x0A
        then t\<lparr>m_line := m_line t + 1, m_column := 1, m_position := m_position t + 1\<rparr>
        else t\<lparr>m_column := m_column t + 1, m_position := m_position t + 1\<rparr>)"

text \<open>
  Modelled from the spec: \<^verbatim>\<open>skip_whitespace\<close> of simd_architecture.hpp is not part of the
  sources at hand. By the spec it returns the number of leading bytes of the range that
  are classified WHITESPACE, the same number on every SIMD tier; this is the scalar loop
  over the classification table.
\<close>

definition skip_whitespace :: "string \<Rightarrow> nat" where
  "skip_whitespace bytes = length (takeWhile is_whitespace bytes)"

function tokenize_loop ::
  "(string \<Rightarrow> Keyword) \<Rightarrow> (string \<Rightarrow> Keyword) \<Rightarrow> SimdTokenizer \<Rightarrow> Token list
     \<Rightarrow> Token list" where
  "tokenize_loop find_keyword is_keyword_simd t tokens =
     (if m_position t < m_input_size t then
        (let skip = skip_whitespace (drop (m_position t) (m_input t));
             t1 = (if skip > 0 then update_position skip t else t)
         in if m_position t1 \<ge> m_input_size t1 then tokens
            else
              (let (token, t2) = next_token find_keyword is_keyword_simd t1;
                   tokens' = (if type token \<noteq> Whitespace then tokens @ [token] else tokens)
               in if type token = EndOfFile then tokens'
                  else tokenize_loop find_keyword is_keyword_simd t2 tokens'))
      else tokens)"
  by pat_completeness auto

definition tokenize :: "(string \<Rightarrow> Keyword) \<Rightarrow> (string \<Rightarrow> Keyword) \<Rightarrow> string \<Rightarrow> Token list" where
  "tokenize find_keyword is_keyword_simd inp =
     tokenize_loop find_keyword is_keyword_simd (new_tokenizer inp) []"

section \<open>Notions used to state the properties\<close>

text \<open>
  \<open>advances t r\<close>: the call that returned \<open>r\<close> from state \<open>t\<close> kept the buffer, moved
  the position forward by at least one byte and not past the end, and returned a token
  that starts where the call started and spans what was consumed.
\<close>

definition advances :: "SimdTokenizer \<Rightarrow> Token \<times> SimdTokenizer \<Rightarrow> bool" where
  "advances t r \<longleftrightarrow>
     m_input (snd r) = m_input t \<and>
     m_position t < m_position (snd r) \<and>
     m_position (snd r) \<le> m_input_size t \<and>
     value (fst r) = \<lparr>sv_data = m_position t, sv_size = m_position (snd r) - m_position t\<rparr> \<and>
     line (fst r) = m_line t \<and> column (fst r) = m_column t"

text \<open>The kinds a scanner can give; \<open>Whitespace\<close>, \<open>EndOfFile\<close> and \<open>Unknown\<close> are not among them.\<close>

definition scanned_kind :: "TokenType \<Rightarrow> bool" where
  "scanned_kind ty \<longleftrightarrow>
     ty = Keyword \<or> ty = Identifier \<or> ty = Number \<or> ty = String \<or> ty = Comment
     \<or> ty = Operator \<or> ty = Delimiter"

text \<open>The state in which \<open>next_token\<close> is called: after the whitespace at the position.\<close>

definition after_skip :: "SimdTokenizer \<Rightarrow> SimdTokenizer" where
  "after_skip t = update_position (skip_whitespace (drop (m_position t) (m_input t))) t"

text \<open>A keyword dictionary without entries, to run the tokenizer on concrete inputs.\<close>

definition no_keywords :: "string \<Rightarrow> Keyword" where
  "no_keywords lexeme = UNKNOWN"

subsection \<open>Line and column of an offset\<close>

text \<open>
  \<open>line_at X o\<close> is one plus the number of newline bytes in \<open>X[..o)\<close>;
  \<open>last_newline_before X o\<close> is the offset of the last newline before \<open>o\<close>, or \<open>-1\<close>;
  \<open>column_at X o\<close> is their difference from \<open>o\<close>.
\<close>

definition line_at :: "string \<Rightarrow> nat \<Rightarrow> nat" where
  "line_at X off = 1 + count_list (take off X) (CHR 0x0A)"

fun last_newline_before :: "string \<Rightarrow> nat \<Rightarrow> int" where
  "last_newline_before X 0 = - 1"
| "last_newline_before X (Suc j) =
     (if X ! j = CHR 0x0A then int j else last_newline_before X j)"

definition column_at :: "string \<Rightarrow> nat \<Rightarrow> int" where
  "column_at X off = int off - last_newline_before X off"

text \<open>The position state describes its own offset.\<close>

definition tracked :: "SimdTokenizer \<Rightarrow> bool" where
  "tracked t \<longleftrightarrow>
     m_position t \<le> m_input_size t \<and>
     m_line t = line_at (m_input t) (m_position t) \<and>
     int (m_column t) = column_at (m_input t) (m_position t)"

definition located :: "string \<Rightarrow> Token \<Rightarrow> bool" where
  "located X T \<longleftrightarrow>
     line T = line_at X (sv_data (value T)) \<and>
     int (column T) = column_at X (sv_data (value T))"

subsection \<open>Putting the input together again\<close>

text \<open>
  \<open>skipped X p\<close> are the bytes skipped as whitespace at offset \<open>p\<close>. \<open>restore X p Ts\<close>
  interleaves, from offset \<open>p\<close> on, the skipped bytes with the values of the tokens
  \<open>Ts\<close> in their order; after the last token come the bytes skipped before the end.
  \<open>tiles X p Ts\<close> says where the tokens lie: each one starts right after the whitespace
  that follows its predecessor (or offset \<open>p\<close>), is not empty and ends inside the input,
  and only whitespace follows the last one.
\<close>

definition skipped :: "string \<Rightarrow> nat \<Rightarrow> string" where
  "skipped X p = take (skip_whitespace (drop p X)) (drop p X)"

fun restore :: "string \<Rightarrow> nat \<Rightarrow> Token list \<Rightarrow> string" where
  "restore X p [] = skipped X p"
| "restore X p (T # Ts) =
     skipped X p @ view X (value T)
       @ restore X (p + length (skipped X p) + sv_size (value T)) Ts"

fun tiles :: "string \<Rightarrow> nat \<Rightarrow> Token list \<Rightarrow> bool" where
  "tiles X p [] \<longleftrightarrow> p + skip_whitespace (drop p X) = length X"
| "tiles X p (T # Ts) \<longleftrightarrow>
     sv_data (value T) = p + skip_whitespace (drop p X) \<and>
     0 < sv_size (value T) \<and>
     sv_data (value T) + sv_size (value T) \<le> length X \<and>
     tiles X (sv_data (value T) + sv_size (value T)) Ts"

subsection \<open>The two-byte extension table\<close>

text \<open>The ten pairs as the specification lists them: \<open><= <> << >= >> != == || && ::\<close>.\<close>

definition extension_table :: "(char \<times> char) list" where
  "extension_table =
     [(CHR ''<'', CHR ''=''), (CHR ''<'', CHR ''>''), (CHR ''<'', CHR ''<''),
      (CHR ''>'', CHR ''=''), (CHR ''>'', CHR ''>''),
      (CHR ''!'', CHR ''=''),
      (CHR ''='', CHR ''=''),
      (CHR ''|'', CHR ''|''), (CHR ''&'', CHR ''&''),
      (CHR '':'', CHR '':'')]"

text \<open>What a token list shows: kind and bytes of each token.\<close>

definition lexemes :: "string \<Rightarrow> Token list \<Rightarrow> (TokenType \<times> string) list" where
  "lexemes X Ts = map (\<lambda>T. (type T, view X (value T))) Ts"

text \<open>
  \<open>bytes_at X p s\<close>: the input holds the bytes \<open>s\<close> from offset \<open>p\<close> on.
  \<open>operator_token t n\<close> is what a scanner returns for an \<open>Operator\<close> token of \<open>n\<close> bytes,
  none of them a newline, that starts at the position of \<open>t\<close>.
  \<open>splits_as K S t n m\<close>: from the state \<open>t\<close>, \<open>next_token\<close> returns an operator of \<open>n\<close>
  bytes, then one of \<open>m\<close> bytes, and these two are the tokens with which the loop of
  \<open>tokenize\<close> goes on from \<open>t\<close>.
\<close>

definition bytes_at :: "string \<Rightarrow> nat \<Rightarrow> string \<Rightarrow> bool" where
  "bytes_at X p s \<longleftrightarrow> take (length s) (drop p X) = s"

definition operator_token :: "SimdTokenizer \<Rightarrow> nat \<Rightarrow> Token \<times> SimdTokenizer" where
  "operator_token t n =
     (\<lparr>type = Operator, value = \<lparr>sv_data = m_position t, sv_size = n\<rparr>,
        keyword_id = UNKNOWN, line = m_line t, column = m_column t\<rparr>,
      t\<lparr>m_position := m_position t + n, m_column := m_column t + n\<rparr>)"

definition splits_as ::
  "(string \<Rightarrow> Keyword) \<Rightarrow> (string \<Rightarrow> Keyword) \<Rightarrow> SimdTokenizer \<Rightarrow> nat \<Rightarrow> nat \<Rightarrow> bool" where
  "splits_as K S t n m \<longleftrightarrow>
     next_token K S t = operator_token t n \<and>
     next_token K S (snd (operator_token t n)) = operator_token (snd (operator_token t n)) m \<and>
     tokenize_loop K S t [] =
       fst (operator_token t n) # fst (operator_token (snd (operator_token t n)) m)
         # tokenize_loop K S (snd (operator_token (snd (operator_token t n)) m)) []"

subsection \<open>String literals, in the words of the specification\<close>

text \<open>
  The bytes after the opening quote \<open>q\<close>: a byte equal to \<open>q\<close> is a terminator unless the
  next byte is \<open>q\<close> too, in which case the pair is an escaped quote and both are consumed.
  \<open>string_rest\<close> counts the bytes consumed after the opening quote (the terminator
  included), \<open>string_closed\<close> tells whether a terminator was found.
\<close>

fun string_rest :: "char \<Rightarrow> string \<Rightarrow> nat" where
  "string_rest q [] = 0"
| "string_rest q [c] = 1"
| "string_rest q (c # d # cs) =
     (if c = q then (if d = q then 2 + string_rest q cs else 1)
      else 1 + string_rest q (d # cs))"

fun string_closed :: "char \<Rightarrow> string \<Rightarrow> bool" where
  "string_closed q [] \<longleftrightarrow> False"
| "string_closed q [c] \<longleftrightarrow> c = q"
| "string_closed q (c # d # cs) \<longleftrightarrow>
     (if c = q then (if d = q then string_closed q cs else True)
      else string_closed q (d # cs))"

subsection \<open>Numbers, in the words of the specification\<close>

text \<open>
  The greedy consumption of digits, of at most one decimal point (forbidden once an
  exponent marker has been seen) and of at most one exponent marker \<open>e\<close> or \<open>E\<close>, which
  takes a single \<open>+\<close> or \<open>-\<close> right after it along; \<open>number_rest\<close> counts the bytes
  consumed, given whether a point and an exponent marker have been seen.
\<close>

fun number_rest :: "bool \<Rightarrow> bool \<Rightarrow> string \<Rightarrow> nat" where
  "number_rest has_dot has_exp [] = 0"
| "number_rest has_dot has_exp (c # cs) =
     (if is_digit c then 1 + number_rest has_dot has_exp cs
      else if c = CHR ''.'' \<and> \<not> has_dot \<and> \<not> has_exp then 1 + number_rest True has_exp cs
      else if (c = CHR ''e'' \<or> c = CHR ''E'') \<and> \<not> has_exp then
        (if cs \<noteq> [] \<and> (hd cs = CHR ''+'' \<or> hd cs = CHR ''-'')
         then 2 + number_rest has_dot True (tl cs)
         else 1 + number_rest has_dot True cs)
      else 0)"

definition exponent_marker :: "char \<Rightarrow> bool" where
  "exponent_marker c \<longleftrightarrow> c = CHR ''e'' \<or> c = CHR ''E''"

section \<open>Basic facts about the classification and the loops\<close>

declare ident_loop.simps [simp del] number_loop.simps [simp del] string_loop.simps [simp del]
  comment_loop.simps [simp del] block_comment_loop.simps [simp del]

lemmas char_class_defs =
  CHAR_NONE_def CHAR_WHITESPACE_def CHAR_ALPHA_UPPER_def CHAR_ALPHA_LOWER_def CHAR_DIGIT_def
  CHAR_UNDERSCORE_def CHAR_QUOTE_def CHAR_OPERATOR_def CHAR_DELIMITER_def CHAR_ALPHA_def
  CHAR_IDENT_START_def CHAR_IDENT_CONT_def

lemmas is_class_defs =
  is_identifier_start_def is_identifier_cont_def is_digit_def is_whitespace_def
  is_operator_def is_delimiter_def is_quote_def

lemma of_char_lt_256: "(of_char ch :: nat) < 256"
proof -
  have "(of_char ch :: nat) mod 256 < 256" by simp
  then show ?thesis by (simp only: of_char_mod_256)
qed

lemma is_whitespace_newline: "is_whitespace (CHR 0x0A)"
  by (simp add: is_class_defs char_lookup_table_def char_class_defs)

lemma not_cont_newline: "\<not> is_identifier_cont (CHR 0x0A)"
  by (simp add: is_class_defs char_lookup_table_def char_class_defs)

lemma not_digit_newline: "\<not> is_digit (CHR 0x0A)"
  by (simp add: is_class_defs char_lookup_table_def char_class_defs)

lemma not_quote_newline: "\<not> is_quote (CHR 0x0A)"
  by (simp add: is_class_defs char_lookup_table_def char_class_defs)

lemma ident_start_cont: "is_identifier_start ch \<Longrightarrow> is_identifier_cont ch"
  by (auto simp: is_identifier_start_def is_identifier_cont_def CHAR_IDENT_CONT_def
      bit.conj_disj_distrib or_eq_0_iff)

subsection \<open>What each loop leaves unchanged, and how far it moves\<close>

lemma ident_loop_input [simp]: "m_input (ident_loop t) = m_input t"
  by (induction t rule: ident_loop.induct) (subst ident_loop.simps, simp)

lemma ident_loop_mono: "m_position t \<le> m_position (ident_loop t)"
  by (induction t rule: ident_loop.induct) (subst ident_loop.simps, auto)

lemma ident_loop_bound: "m_position t \<le> m_input_size t \<Longrightarrow> m_position (ident_loop t) \<le> m_input_size t"
  by (induction t rule: ident_loop.induct) (subst ident_loop.simps, auto)

lemma ident_loop_progress:
  assumes "m_position t < m_input_size t" "is_identifier_cont (m_input t ! m_position t)"
  shows "m_position t < m_position (ident_loop t)"
proof -
  have "m_position t + 1 \<le> m_position (ident_loop (t\<lparr>m_position := m_position t + 1, m_column := m_column t + 1\<rparr>))"
    using ident_loop_mono [of "t\<lparr>m_position := m_position t + 1, m_column := m_column t + 1\<rparr>"] by simp
  with assms show ?thesis by (subst ident_loop.simps) simp
qed

lemma number_loop_input [simp]: "m_input (number_loop d e t) = m_input t"
  by (induction d e t rule: number_loop.induct) (subst number_loop.simps, simp add: Let_def)

lemma number_loop_mono: "m_position t \<le> m_position (number_loop d e t)"
  by (induction d e t rule: number_loop.induct) (subst number_loop.simps, auto simp: Let_def)

lemma number_loop_bound:
  "m_position t \<le> m_input_size t \<Longrightarrow> m_position (number_loop d e t) \<le> m_input_size t"
  by (induction d e t rule: number_loop.induct) (subst number_loop.simps, auto simp: Let_def)

lemma number_loop_progress:
  assumes "m_position t < m_input_size t" "is_digit (m_input t ! m_position t)"
  shows "m_position t < m_position (number_loop d e t)"
proof -
  have "m_position t + 1 \<le> m_position (number_loop d e (t\<lparr>m_position := m_position t + 1, m_column := m_column t + 1\<rparr>))"
    using number_loop_mono [of "t\<lparr>m_position := m_position t + 1, m_column := m_column t + 1\<rparr>"] by simp
  with assms show ?thesis by (subst number_loop.simps) simp
qed

lemma string_loop_input [simp]: "m_input (string_loop q t) = m_input t"
  by (induction q t rule: string_loop.induct) (subst string_loop.simps, simp)

lemma string_loop_mono: "m_position t \<le> m_position (string_loop q t)"
  by (induction q t rule: string_loop.induct) (subst string_loop.simps, auto)

lemma string_loop_bound:
  "m_position t \<le> m_input_size t \<Longrightarrow> m_position (string_loop q t) \<le> m_input_size t"
  by (induction q t rule: string_loop.induct) (subst string_loop.simps, auto)

lemma comment_loop_input [simp]: "m_input (comment_loop t) = m_input t"
  by (induction t rule: comment_loop.induct) (subst comment_loop.simps, simp)

lemma comment_loop_mono: "m_position t \<le> m_position (comment_loop t)"
  by (induction t rule: comment_loop.induct) (subst comment_loop.simps, auto)

lemma comment_loop_bound:
  "m_position t \<le> m_input_size t \<Longrightarrow> m_position (comment_loop t) \<le> m_input_size t"
  by (induction t rule: comment_loop.induct) (subst comment_loop.simps, auto)

lemma block_comment_loop_input [simp]: "m_input (block_comment_loop t) = m_input t"
  by (induction t rule: block_comment_loop.induct) (subst block_comment_loop.simps, simp)

lemma block_comment_loop_mono: "m_position t \<le> m_position (block_comment_loop t)"
  by (induction t rule: block_comment_loop.induct) (subst block_comment_loop.simps, auto)

lemma block_comment_loop_bound:
  "m_position t \<le> m_input_size t \<Longrightarrow> m_position (block_comment_loop t) \<le> m_input_size t"
  by (induction t rule: block_comment_loop.induct) (subst block_comment_loop.simps, auto)

subsection \<open>One call of \<open>next_token\<close>\<close>

lemma scan_identifier_or_keyword_advances:
  assumes "m_position t < m_input_size t" "is_identifier_start (m_input t ! m_position t)"
  shows "advances t (scan_identifier_or_keyword K S (m_position t) (m_line t) (m_column t) t)"
  using assms ident_loop_progress [of t] ident_loop_bound [of t]
  by (simp add: advances_def scan_identifier_or_keyword_def Let_def ident_start_cont)

lemma scan_number_advances:
  assumes "m_position t < m_input_size t" "is_digit (m_input t ! m_position t)"
  shows "advances t (scan_number (m_position t) (m_line t) (m_column t) t)"
  using assms number_loop_progress [of t False False] number_loop_bound [of t False False]
  by (simp add: advances_def scan_number_def Let_def)

lemma scan_string_advances:
  assumes "m_position t < m_input_size t"
  shows "advances t (scan_string (m_position t) (m_line t) (m_column t) q t)"
  using assms
    string_loop_mono [of "t\<lparr>m_position := m_position t + 1, m_column := m_column t + 1\<rparr>" q]
    string_loop_bound [of "t\<lparr>m_position := m_position t + 1, m_column := m_column t + 1\<rparr>" q]
  by (simp add: advances_def scan_string_def Let_def)

lemma scan_comment_advances:
  assumes "m_position t + 1 < m_input_size t"
  shows "advances t (scan_comment (m_position t) (m_line t) (m_column t) t)"
  using assms
    comment_loop_mono [of "t\<lparr>m_position := m_position t + 2, m_column := m_column t + 2\<rparr>"]
    comment_loop_bound [of "t\<lparr>m_position := m_position t + 2, m_column := m_column t + 2\<rparr>"]
  by (simp add: advances_def scan_comment_def Let_def)

lemma scan_block_comment_advances:
  assumes "m_position t + 1 < m_input_size t"
  shows "advances t (scan_block_comment (m_position t) (m_line t) (m_column t) t)"
  using assms
    block_comment_loop_mono [of "t\<lparr>m_position := m_position t + 2, m_column := m_column t + 2\<rparr>"]
    block_comment_loop_bound [of "t\<lparr>m_position := m_position t + 2, m_column := m_column t + 2\<rparr>"]
  by (simp add: advances_def scan_block_comment_def Let_def)

lemma scan_operator_or_delimiter_advances:
  assumes "m_position t < m_input_size t"
  shows "advances t (scan_operator_or_delimiter (m_position t) (m_line t) (m_column t) t)"
  using assms by (simp add: advances_def scan_operator_or_delimiter_def Let_def)

lemma next_token_advances:
  assumes "m_position t < m_input_size t"
  shows "advances t (next_token K S t)"
  using assms
  by (simp add: next_token_def Let_def scan_identifier_or_keyword_advances scan_number_advances
      scan_string_advances scan_comment_advances scan_block_comment_advances
      scan_operator_or_delimiter_advances)

lemma next_token_kind:
  assumes "m_position t < m_input_size t"
  shows "scanned_kind (type (fst (next_token K S t)))"
  using assms
  by (simp add: next_token_def Let_def scanned_kind_def scan_identifier_or_keyword_def
      scan_number_def scan_string_def scan_comment_def scan_block_comment_def
      scan_operator_or_delimiter_def)

subsection \<open>Skipping whitespace\<close>

lemma update_position_input [simp]: "m_input (update_position n t) = m_input t"
  by (induction n arbitrary: t) simp_all

lemma update_position_position [simp]:
  "m_position (update_position n t) = m_position t + n"
  by (induction n arbitrary: t) simp_all

lemma skip_whitespace_le: "skip_whitespace bytes \<le> length bytes"
  by (simp add: skip_whitespace_def length_takeWhile_le)

lemma skip_whitespace_stops:
  assumes "p + skip_whitespace (drop p X) < length X"
  shows "\<not> is_whitespace (X ! (p + skip_whitespace (drop p X)))"
proof -
  have "length (takeWhile is_whitespace (drop p X)) < length (drop p X)"
    using assms by (simp add: skip_whitespace_def)
  then have "\<not> is_whitespace (drop p X ! length (takeWhile is_whitespace (drop p X)))"
    by (rule nth_length_takeWhile)
  then show ?thesis using assms by (simp add: skip_whitespace_def)
qed

lemma tokenize_loop_total: "All tokenize_loop_dom"
proof (relation "measure (\<lambda>(K, S, t, tokens). m_input_size t - m_position t)", goal_cases)
  case 1
  show ?case by simp
next
  case (2 K S t tokens skip t1 r token t2 tokens')
  have lt: "m_position t1 < m_input_size t1" using 2 by simp
  have t1: "m_input t1 = m_input t" "m_position t \<le> m_position t1"
    using 2 by (auto split: if_splits)
  have "advances t1 (next_token K S t1)" using lt by (rule next_token_advances)
  moreover have "snd (next_token K S t1) = t2" using 2 by (metis snd_conv)
  ultimately have "m_input t2 = m_input t1" "m_position t1 < m_position t2"
    "m_position t2 \<le> m_input_size t1"
    by (simp_all add: advances_def)
  with t1 lt show ?case by simp
qed

termination tokenize_loop
  by (rule tokenize_loop_total)

declare tokenize_loop.simps [simp del]


subsection \<open>The loop of \<open>tokenize\<close>\<close>

lemma after_skip_input [simp]: "m_input (after_skip t) = m_input t"
  by (simp add: after_skip_def)

lemma after_skip_position:
  "m_position (after_skip t) = m_position t + skip_whitespace (drop (m_position t) (m_input t))"
  by (simp add: after_skip_def)

lemma after_skip_bound:
  "m_position t \<le> m_input_size t \<Longrightarrow> m_position (after_skip t) \<le> m_input_size t"
  using skip_whitespace_le [of "drop (m_position t) (m_input t)"]
  by (simp add: after_skip_position)

lemma scanned_kind_simps [simp]:
  "\<not> scanned_kind Whitespace" "\<not> scanned_kind EndOfFile" "\<not> scanned_kind Unknown"
  by (simp_all add: scanned_kind_def)

lemma tokenize_loop_unfold:
  "tokenize_loop K S t acc =
     (if m_position t < m_input_size t \<and> m_position (after_skip t) < m_input_size t
      then tokenize_loop K S (snd (next_token K S (after_skip t)))
             (acc @ [fst (next_token K S (after_skip t))])
      else acc)"
proof (cases "m_position t < m_input_size t \<and> m_position (after_skip t) < m_input_size t")
  case False
  then show ?thesis
    by (subst tokenize_loop.simps) (auto simp: after_skip_def Let_def)
next
  case True
  define t1 where "t1 = after_skip t"
  have t1: "(if 0 < skip_whitespace (drop (m_position t) (m_input t))
             then update_position (skip_whitespace (drop (m_position t) (m_input t))) t
             else t) = t1"
    by (simp add: t1_def after_skip_def)
  have lt: "m_position t1 < m_input_size t1" using True by (simp add: t1_def)
  then have "scanned_kind (type (fst (next_token K S t1)))" by (rule next_token_kind)
  then have k: "type (fst (next_token K S t1)) \<noteq> Whitespace"
    "type (fst (next_token K S t1)) \<noteq> EndOfFile"
    by auto
  show ?thesis
    using True lt k
    by (subst tokenize_loop.simps) (simp add: Let_def t1 case_prod_unfold flip: t1_def)
qed

lemma tokenize_loop_induct [case_names step]:
  assumes step: "\<And>t acc.
     (m_position t < m_input_size t \<Longrightarrow> m_position (after_skip t) < m_input_size t \<Longrightarrow>
        P (snd (next_token K S (after_skip t))) (acc @ [fst (next_token K S (after_skip t))]))
     \<Longrightarrow> P t acc"
  shows "P t acc"
proof -
  have "m_input_size t - m_position t = n \<Longrightarrow> P t acc" for n
  proof (induction n arbitrary: t acc rule: less_induct)
    case (less n t acc)
    show ?case
    proof (rule step)
      assume a: "m_position t < m_input_size t" "m_position (after_skip t) < m_input_size t"
      then have "advances (after_skip t) (next_token K S (after_skip t))"
        by (intro next_token_advances) simp
      then have "m_input (snd (next_token K S (after_skip t))) = m_input t"
        "m_position (after_skip t) < m_position (snd (next_token K S (after_skip t)))"
        "m_position (snd (next_token K S (after_skip t))) \<le> m_input_size t"
        by (simp_all add: advances_def)
      moreover have "m_position t \<le> m_position (after_skip t)"
        by (simp add: after_skip_position)
      ultimately have "m_input_size (snd (next_token K S (after_skip t)))
          - m_position (snd (next_token K S (after_skip t))) < n"
        using a less.prems by simp
      then show "P (snd (next_token K S (after_skip t)))
          (acc @ [fst (next_token K S (after_skip t))])"
        using less.IH by blast
    qed
  qed
  then show ?thesis by simp
qed


lemma tokenize_induct [case_names step]:
  assumes "\<And>t.
     (m_position t < m_input_size t \<Longrightarrow> m_position (after_skip t) < m_input_size t \<Longrightarrow>
        Q (snd (next_token K S (after_skip t)))) \<Longrightarrow> Q t"
  shows "Q t"
  using assms by (rule tokenize_loop_induct [where P = "\<lambda>t acc. Q t" and K = K and S = S])

lemma tokenize_loop_acc: "tokenize_loop K S t acc = acc @ tokenize_loop K S t []"
proof (induction t arbitrary: acc rule: tokenize_induct [where K = K and S = S])
  case (step t)
  show ?case
  proof (cases "m_position t < m_input_size t \<and> m_position (after_skip t) < m_input_size t")
    case True
    then have "tokenize_loop K S t acc =
        (acc @ [fst (next_token K S (after_skip t))]) @
          tokenize_loop K S (snd (next_token K S (after_skip t))) []"
      using step [of "acc @ [fst (next_token K S (after_skip t))]"]
      by (subst tokenize_loop_unfold) simp
    also have "\<dots> = acc @ tokenize_loop K S (snd (next_token K S (after_skip t)))
          ([] @ [fst (next_token K S (after_skip t))])"
      using step [of "[fst (next_token K S (after_skip t))]"] True by simp
    also have "\<dots> = acc @ tokenize_loop K S t []"
      using True by (subst (2) tokenize_loop_unfold) simp
    finally show ?thesis .
  next
    case False
    then have "tokenize_loop K S t a = a" for a
      by (subst tokenize_loop_unfold) auto
    then show ?thesis by simp
  qed
qed

text \<open>The loop as a list recursion: the first token, then the tokens of the rest.\<close>

lemma tokenize_loop_Cons:
  "tokenize_loop K S t [] =
     (if m_position t < m_input_size t \<and> m_position (after_skip t) < m_input_size t
      then fst (next_token K S (after_skip t))
             # tokenize_loop K S (snd (next_token K S (after_skip t))) []
      else [])"
  by (subst tokenize_loop_unfold, subst tokenize_loop_acc) simp

lemma tokenize_loop_kinds:
  "list_all (\<lambda>tok. scanned_kind (type tok)) (tokenize_loop K S t [])"
proof (induction t rule: tokenize_induct [where K = K and S = S])
  case (step t)
  show ?case
    using step next_token_kind [of "after_skip t" K S]
    by (subst tokenize_loop_Cons) simp
qed

text \<open>The equations that run the tokenizer on a concrete input.\<close>

lemmas tokenize_eval =
  tokenize_def new_tokenizer_def tokenize_loop.simps skip_whitespace_def next_token_def Let_def
  scan_identifier_or_keyword_def scan_number_def scan_string_def scan_comment_def
  scan_block_comment_def scan_operator_or_delimiter_def two_byte_operator_def
  ident_loop.simps number_loop.simps string_loop.simps comment_loop.simps
  block_comment_loop.simps is_class_defs char_lookup_table_def char_class_defs
  lexemes_def view_def

text \<open>
  C9. For every input, the sequence returned by \<open>tokenize\<close> contains no token of kind
  \<open>Whitespace\<close> and none of kind \<open>EndOfFile\<close>; for the input of length zero the sequence
  is empty.
\<close>

theorem tokenize_no_whitespace_no_eof:
  "list_all (\<lambda>tok. type tok \<noteq> Whitespace \<and> type tok \<noteq> EndOfFile) (tokenize K S X)
   \<and> tokenize K S [] = []"
proof
  have "list_all (\<lambda>tok. scanned_kind (type tok)) (tokenize K S X)"
    unfolding tokenize_def by (rule tokenize_loop_kinds)
  then show "list_all (\<lambda>tok. type tok \<noteq> Whitespace \<and> type tok \<noteq> EndOfFile) (tokenize K S X)"
    by (rule list.pred_mono_strong) auto
  show "tokenize K S [] = []"
    by (simp add: tokenize_def new_tokenizer_def tokenize_loop_Cons)
qed

theorem tokenize_no_whitespace_no_eof_witness:
  "tokenize no_keywords no_keywords (''a'' @ [CHR 0x0A] @ '' b'') =
     [\<lparr>type = Identifier, value = \<lparr>sv_data = 0, sv_size = 1\<rparr>, keyword_id = UNKNOWN,
        line = 1, column = 1\<rparr>,
      \<lparr>type = Identifier, value = \<lparr>sv_data = 3, sv_size = 1\<rparr>, keyword_id = UNKNOWN,
        line = 2, column = 2\<rparr>]
   \<and> list_all (\<lambda>tok. type tok \<noteq> Whitespace \<and> type tok \<noteq> EndOfFile)
        (tokenize no_keywords no_keywords (''a'' @ [CHR 0x0A] @ '' b''))
   \<and> tokenize no_keywords no_keywords [] = []"
proof -
  have "tokenize no_keywords no_keywords (''a'' @ [CHR 0x0A] @ '' b'') =
     [\<lparr>type = Identifier, value = \<lparr>sv_data = 0, sv_size = 1\<rparr>, keyword_id = UNKNOWN,
        line = 1, column = 1\<rparr>,
      \<lparr>type = Identifier, value = \<lparr>sv_data = 3, sv_size = 1\<rparr>, keyword_id = UNKNOWN,
        line = 2, column = 2\<rparr>]"
    by code_simp
  then show ?thesis
    using tokenize_no_whitespace_no_eof [of no_keywords no_keywords "''a'' @ [CHR 0x0A] @ '' b''"]
    by simp
qed

subsection \<open>Line and column follow the position\<close>

lemma line_at_Suc:
  "off < length X \<Longrightarrow>
   line_at X (Suc off) = (if X ! off = CHR 0x0A then line_at X off + 1 else line_at X off)"
  by (simp add: line_at_def take_Suc_conv_app_nth)

lemma column_at_Suc:
  "column_at X (Suc off) = (if X ! off = CHR 0x0A then 1 else column_at X off + 1)"
  by (simp add: column_at_def)

lemma tracked_new: "tracked (new_tokenizer X)"
  by (simp add: tracked_def new_tokenizer_def line_at_def column_at_def)

lemma tracked_byte:
  assumes "tracked t" "m_position t < m_input_size t" "m_input t ! m_position t \<noteq> CHR 0x0A"
    and "m_input t' = m_input t" "m_position t' = m_position t + 1"
    and "m_line t' = m_line t" "m_column t' = m_column t + 1"
  shows "tracked t'"
  using assms by (simp add: tracked_def line_at_Suc column_at_Suc)

lemma tracked_newline:
  assumes "tracked t" "m_position t < m_input_size t" "m_input t ! m_position t = CHR 0x0A"
    and "m_input t' = m_input t" "m_position t' = m_position t + 1"
    and "m_line t' = m_line t + 1" "m_column t' = 1"
  shows "tracked t'"
  using assms by (simp add: tracked_def line_at_Suc column_at_Suc)

lemma tracked_two_bytes:
  assumes "tracked t" "m_position t + 1 < m_input_size t"
    and "m_input t ! m_position t \<noteq> CHR 0x0A" "m_input t ! (m_position t + 1) \<noteq> CHR 0x0A"
    and "m_input t' = m_input t" "m_position t' = m_position t + 2"
    and "m_line t' = m_line t" "m_column t' = m_column t + 2"
  shows "tracked t'"
proof -
  have "tracked (t\<lparr>m_position := m_position t + 1, m_column := m_column t + 1\<rparr>)"
    by (rule tracked_byte [of t]) (use assms in simp_all)
  then show ?thesis
    by (rule tracked_byte) (use assms in simp_all)
qed

lemma ident_loop_tracked: "tracked t \<Longrightarrow> tracked (ident_loop t)"
proof (induction t rule: ident_loop.induct)
  case (1 t)
  show ?case
  proof (cases "m_position t < m_input_size t \<and> is_identifier_cont (m_input t ! m_position t)")
    case True
    then have nl: "m_input t ! m_position t \<noteq> CHR 0x0A"
      using not_cont_newline by auto
    have "tracked (t\<lparr>m_position := m_position t + 1, m_column := m_column t + 1\<rparr>)"
      by (rule tracked_byte [of t]) (use True 1 nl in simp_all)
    then show ?thesis using True 1 by (subst ident_loop.simps) simp
  next
    case False
    with 1 show ?thesis by (subst ident_loop.simps) auto
  qed
qed


text \<open>One byte that is not a newline, consumed with \<open>++position_; ++column_\<close>.\<close>

lemma tracked_advance:
  assumes "tracked t" "m_position t < m_input_size t" "m_input t ! m_position t \<noteq> CHR 0x0A"
  shows "tracked (t\<lparr>m_position := m_position t + 1, m_column := m_column t + 1\<rparr>)"
  by (rule tracked_byte [of t]) (use assms in simp_all)

lemma tracked_advance2:
  assumes "tracked t" "m_position t + 1 < m_input_size t"
    and "m_input t ! m_position t \<noteq> CHR 0x0A" "m_input t ! (m_position t + 1) \<noteq> CHR 0x0A"
  shows "tracked (t\<lparr>m_position := m_position t + 2, m_column := m_column t + 2\<rparr>)"
  by (rule tracked_two_bytes [of t]) (use assms in simp_all)

lemma tracked_advance_line:
  assumes "tracked t" "m_position t < m_input_size t" "m_input t ! m_position t = CHR 0x0A"
  shows "tracked (t\<lparr>m_position := m_position t + 1, m_line := m_line t + 1, m_column := 1\<rparr>)"
  by (rule tracked_newline [of t]) (use assms in simp_all)

lemma digit_not_newline: "is_digit ch \<Longrightarrow> ch \<noteq> CHR 0x0A"
  using not_digit_newline by auto

lemma number_loop_tracked: "tracked t \<Longrightarrow> tracked (number_loop d e t)"
proof (induction d e t rule: number_loop.induct)
  case (1 d e t)
  show ?case
  proof (cases "m_position t < m_input_size t")
    case False
    then show ?thesis using 1 by (subst number_loop.simps) simp
  next
    case lt: True
    let ?ch = "m_input t ! m_position t"
    let ?t1 = "t\<lparr>m_position := m_position t + 1, m_column := m_column t + 1\<rparr>"
    consider (digit) "is_digit ?ch"
      | (dot) "\<not> is_digit ?ch" "?ch = CHR ''.''" "\<not> d" "\<not> e"
      | (exp) "\<not> is_digit ?ch" "\<not> (?ch = CHR ''.'' \<and> \<not> d \<and> \<not> e)"
          "?ch = CHR ''e'' \<or> ?ch = CHR ''E''" "\<not> e"
      | (stop) "\<not> is_digit ?ch" "\<not> (?ch = CHR ''.'' \<and> \<not> d \<and> \<not> e)"
          "\<not> ((?ch = CHR ''e'' \<or> ?ch = CHR ''E'') \<and> \<not> e)"
      by blast
    then show ?thesis
    proof cases
      case digit
      then have "tracked ?t1" using lt 1 by (intro tracked_advance digit_not_newline)
      then show ?thesis using lt digit 1 by (subst number_loop.simps) simp
    next
      case dot
      then have "tracked ?t1" using lt 1 by (intro tracked_advance) simp_all
      then show ?thesis using lt dot 1 by (subst number_loop.simps) simp
    next
      case exp
      then have t1: "tracked ?t1" using lt 1 by (intro tracked_advance) auto
      let ?t2 = "if m_position ?t1 < m_input_size ?t1
                   \<and> (m_input ?t1 ! m_position ?t1 = CHR ''+''
                        \<or> m_input ?t1 ! m_position ?t1 = CHR ''-'')
                 then ?t1\<lparr>m_position := m_position ?t1 + 1, m_column := m_column ?t1 + 1\<rparr>
                 else ?t1"
      have t2: "tracked ?t2"
        using t1 tracked_advance [of ?t1] by auto
      have c: "(?ch = CHR ''e'' \<or> ?ch = CHR ''E'') \<and> \<not> e" using exp by simp
      have "tracked (number_loop d True ?t2)"
        by (rule "1.IH"(3) [of ?ch, unfolded Let_def, OF lt refl exp(1) exp(2) c t2])
      moreover have "number_loop d e t = number_loop d True ?t2"
        using lt exp by (subst number_loop.simps) (auto simp: Let_def)
      ultimately show ?thesis by simp
    next
      case stop
      then show ?thesis using lt 1 by (subst number_loop.simps) auto
    qed
  qed
qed


lemma string_loop_tracked:
  "q \<noteq> CHR 0x0A \<Longrightarrow> tracked t \<Longrightarrow> tracked (string_loop q t)"
proof (induction q t rule: string_loop.induct)
  case (1 q t)
  show ?case
  proof (cases "m_position t < m_input_size t")
    case False
    then show ?thesis using 1 by (subst string_loop.simps) simp
  next
    case lt: True
    let ?ch = "m_input t ! m_position t"
    consider (escaped) "?ch = q" "m_position t + 1 < m_input_size t"
          "m_input t ! (m_position t + 1) = q"
      | (closing) "?ch = q"
          "\<not> (m_position t + 1 < m_input_size t \<and> m_input t ! (m_position t + 1) = q)"
      | (newline) "?ch \<noteq> q" "?ch = CHR 0x0A"
      | (other) "?ch \<noteq> q" "?ch \<noteq> CHR 0x0A"
      by blast
    then show ?thesis
    proof cases
      case escaped
      have "tracked (t\<lparr>m_position := m_position t + 2, m_column := m_column t + 2\<rparr>)"
        by (rule tracked_advance2) (use escaped 1 in simp_all)
      then show ?thesis using lt escaped 1 by (subst string_loop.simps) simp
    next
      case closing
      have "tracked (t\<lparr>m_position := m_position t + 1, m_column := m_column t + 1\<rparr>)"
        by (rule tracked_advance) (use closing lt 1 in simp_all)
      then show ?thesis using lt closing by (subst string_loop.simps) auto
    next
      case newline
      have "tracked (t\<lparr>m_position := m_position t + 1, m_line := m_line t + 1, m_column := 1\<rparr>)"
        by (rule tracked_advance_line) (use newline lt 1 in simp_all)
      then show ?thesis using lt newline 1 by (subst string_loop.simps) simp
    next
      case other
      have "tracked (t\<lparr>m_position := m_position t + 1, m_column := m_column t + 1\<rparr>)"
        by (rule tracked_advance) (use other lt 1 in simp_all)
      then show ?thesis using lt other 1 by (subst string_loop.simps) simp
    qed
  qed
qed

lemma comment_loop_tracked: "tracked t \<Longrightarrow> tracked (comment_loop t)"
proof (induction t rule: comment_loop.induct)
  case (1 t)
  show ?case
  proof (cases "m_position t < m_input_size t")
    case False
    then show ?thesis using 1 by (subst comment_loop.simps) simp
  next
    case lt: True
    show ?thesis
    proof (cases "m_input t ! m_position t = CHR 0x0A")
      case True
      have "tracked (t\<lparr>m_position := m_position t + 1, m_line := m_line t + 1, m_column := 1\<rparr>)"
        by (rule tracked_advance_line) (use True lt 1 in simp_all)
      then show ?thesis using lt True by (subst comment_loop.simps) simp
    next
      case False
      have "tracked (t\<lparr>m_position := m_position t + 1, m_column := m_column t + 1\<rparr>)"
        by (rule tracked_advance) (use False lt 1 in simp_all)
      then show ?thesis using lt False 1 by (subst comment_loop.simps) simp
    qed
  qed
qed

lemma block_comment_loop_tracked: "tracked t \<Longrightarrow> tracked (block_comment_loop t)"
proof (induction t rule: block_comment_loop.induct)
  case (1 t)
  show ?case
  proof (cases "m_position t + 1 < m_input_size t")
    case False
    then show ?thesis using 1 by (subst block_comment_loop.simps) simp
  next
    case lt: True
    let ?ch = "m_input t ! m_position t"
    consider (closing) "?ch = CHR ''*''" "m_input t ! (m_position t + 1) = CHR ''/''"
      | (newline) "\<not> (?ch = CHR ''*'' \<and> m_input t ! (m_position t + 1) = CHR ''/'')"
          "?ch = CHR 0x0A"
      | (other) "\<not> (?ch = CHR ''*'' \<and> m_input t ! (m_position t + 1) = CHR ''/'')"
          "?ch \<noteq> CHR 0x0A"
      by blast
    then show ?thesis
    proof cases
      case closing
      have "tracked (t\<lparr>m_position := m_position t + 2, m_column := m_column t + 2\<rparr>)"
        by (rule tracked_advance2) (use closing lt 1 in simp_all)
      then show ?thesis using lt closing by (subst block_comment_loop.simps) simp
    next
      case newline
      have "tracked (t\<lparr>m_position := m_position t + 1, m_line := m_line t + 1, m_column := 1\<rparr>)"
        by (rule tracked_advance_line) (use newline lt 1 in simp_all)
      then show ?thesis using lt newline 1 by (subst block_comment_loop.simps) auto
    next
      case other
      have "tracked (t\<lparr>m_position := m_position t + 1, m_column := m_column t + 1\<rparr>)"
        by (rule tracked_advance) (use other lt 1 in simp_all)
      then show ?thesis using lt other 1 by (subst block_comment_loop.simps) auto
    qed
  qed
qed

lemma two_byte_operator_not_newline: "two_byte_operator ch nxt \<Longrightarrow> nxt \<noteq> CHR 0x0A"
  by (auto simp: two_byte_operator_def)

lemma quote_not_newline: "is_quote ch \<Longrightarrow> ch \<noteq> CHR 0x0A"
  using not_quote_newline by auto

lemma ident_start_not_newline: "is_identifier_start ch \<Longrightarrow> ch \<noteq> CHR 0x0A"
  using not_cont_newline ident_start_cont by auto

lemma not_whitespace_not_newline: "\<not> is_whitespace ch \<Longrightarrow> ch \<noteq> CHR 0x0A"
  using is_whitespace_newline by auto

lemma next_token_tracked:
  assumes "tracked t" "m_position t < m_input_size t"
    and "\<not> is_whitespace (m_input t ! m_position t)"
  shows "tracked (snd (next_token K S t))"
proof -
  let ?ch = "m_input t ! m_position t"
  have nl: "?ch \<noteq> CHR 0x0A" using assms(3) by (rule not_whitespace_not_newline)
  have one: "tracked (t\<lparr>m_position := m_position t + 1, m_column := m_column t + 1\<rparr>)"
    by (rule tracked_advance) (use assms nl in simp_all)
  have two: "tracked (t\<lparr>m_position := m_position t + 2, m_column := m_column t + 2\<rparr>)"
    if "m_position t + 1 < m_input_size t" "m_input t ! (m_position t + 1) \<noteq> CHR 0x0A"
    by (rule tracked_advance2) (use assms nl that in simp_all)
  have op: "tracked (snd (scan_operator_or_delimiter a b c t))" for a b c
    using one two [OF _ two_byte_operator_not_newline]
    by (auto simp: scan_operator_or_delimiter_def Let_def)
  show ?thesis
    using assms(1,2) one two op
    by (auto simp: next_token_def Let_def scan_identifier_or_keyword_def scan_number_def
        scan_string_def scan_comment_def scan_block_comment_def
        intro!: ident_loop_tracked number_loop_tracked string_loop_tracked
          comment_loop_tracked block_comment_loop_tracked quote_not_newline)
qed

lemma update_position_tracked:
  "tracked t \<Longrightarrow> m_position t + n \<le> m_input_size t \<Longrightarrow> tracked (update_position n t)"
proof (induction n arbitrary: t)
  case 0
  then show ?case by simp
next
  case (Suc n)
  let ?t' = "if m_input t ! m_position t = CHR 0x0A
        then t\<lparr>m_line := m_line t + 1, m_column := 1, m_position := m_position t + 1\<rparr>
        else t\<lparr>m_column := m_column t + 1, m_position := m_position t + 1\<rparr>"
  have "tracked ?t'"
  proof (cases "m_input t ! m_position t = CHR 0x0A")
    case True
    have "tracked (t\<lparr>m_line := m_line t + 1, m_column := 1, m_position := m_position t + 1\<rparr>)"
      by (rule tracked_newline [of t]) (use Suc.prems True in simp_all)
    then show ?thesis using True by simp
  next
    case False
    have "tracked (t\<lparr>m_column := m_column t + 1, m_position := m_position t + 1\<rparr>)"
      by (rule tracked_byte [of t]) (use Suc.prems False in simp_all)
    then show ?thesis using False by simp
  qed
  moreover have "m_position ?t' + n \<le> m_input_size ?t'"
    using Suc.prems by simp
  ultimately have "tracked (update_position n ?t')" by (rule Suc.IH)
  then show ?case by simp
qed

lemma after_skip_tracked: "tracked t \<Longrightarrow> tracked (after_skip t)"
  unfolding after_skip_def
  using skip_whitespace_le [of "drop (m_position t) (m_input t)"]
  by (intro update_position_tracked) (auto simp: tracked_def)

lemma after_skip_stops:
  "m_position (after_skip t) < m_input_size t \<Longrightarrow>
   \<not> is_whitespace (m_input t ! m_position (after_skip t))"
  using skip_whitespace_stops [of "m_position t" "m_input t"]
  by (simp add: after_skip_position)

lemma tokenize_loop_located:
  "tracked t \<Longrightarrow> list_all (located (m_input t)) (tokenize_loop K S t [])"
proof (induction t rule: tokenize_induct [where K = K and S = S])
  case (step t)
  show ?case
  proof (cases "m_position t < m_input_size t \<and> m_position (after_skip t) < m_input_size t")
    case False
    then show ?thesis by (subst tokenize_loop_Cons) auto
  next
    case True
    let ?t1 = "after_skip t"
    let ?r = "next_token K S ?t1"
    have t1: "tracked ?t1" using step.prems by (rule after_skip_tracked)
    have lt: "m_position ?t1 < m_input_size ?t1" using True by simp
    have adv: "advances ?t1 ?r" using lt by (rule next_token_advances)
    have "tracked (snd ?r)"
      using t1 lt after_skip_stops [of t] True by (intro next_token_tracked) simp_all
    then have "list_all (located (m_input (snd ?r))) (tokenize_loop K S (snd ?r) [])"
      using step.IH True by simp
    moreover have "m_input (snd ?r) = m_input t" using adv by (simp add: advances_def)
    moreover have "located (m_input t) (fst ?r)"
      using adv t1 by (simp add: advances_def located_def tracked_def)
    ultimately show ?thesis using True by (subst tokenize_loop_Cons) simp
  qed
qed


text \<open>
  C5. For every input \<open>X\<close> and every token \<open>T\<close> returned by \<open>tokenize\<close>, with starting
  byte offset \<open>o\<close>: the line of \<open>T\<close> is one plus the number of newline bytes in \<open>X[..o)\<close>,
  and the column of \<open>T\<close> is \<open>o\<close> minus the offset of the last newline before \<open>o\<close> (minus
  \<open>-1\<close> when there is none). Newlines inside string literals, comments and skipped
  whitespace are counted like all others.
\<close>

theorem token_line_column:
  "list_all
     (\<lambda>T. line T = 1 + count_list (take (sv_data (value T)) X) (CHR 0x0A)
          \<and> int (column T) = int (sv_data (value T)) - last_newline_before X (sv_data (value T)))
     (tokenize K S X)"
proof -
  have "list_all (located (m_input (new_tokenizer X))) (tokenize K S X)"
    unfolding tokenize_def by (rule tokenize_loop_located) (rule tracked_new)
  then show ?thesis
    by (rule list.pred_mono_strong)
      (simp add: located_def line_at_def column_at_def new_tokenizer_def)
qed

theorem token_line_column_witness:
  "map (\<lambda>T. (type T, sv_data (value T), sv_size (value T), line T, column T))
     (tokenize no_keywords no_keywords
        ([CHR 0x27, CHR ''a'', CHR 0x0A, CHR ''b'', CHR 0x27] @ '' x'' @ [CHR 0x0A] @ ''-- c''
          @ [CHR 0x0A] @ ''y /*'' @ [CHR 0x0A] @ ''*/ z'' @ [CHR 0x0A, CHR 0x0A] @ '' w''))
   = [(String, 0, 5, 1, 1), (Identifier, 6, 1, 2, 4), (Comment, 8, 5, 3, 1),
      (Identifier, 13, 1, 4, 1), (Comment, 15, 5, 4, 3), (Identifier, 21, 1, 5, 4),
      (Identifier, 25, 1, 7, 2)]
   \<and> list_all
     (\<lambda>T. line T = 1 + count_list (take (sv_data (value T))
            ([CHR 0x27, CHR ''a'', CHR 0x0A, CHR ''b'', CHR 0x27] @ '' x'' @ [CHR 0x0A] @ ''-- c''
              @ [CHR 0x0A] @ ''y /*'' @ [CHR 0x0A] @ ''*/ z'' @ [CHR 0x0A, CHR 0x0A] @ '' w''))
            (CHR 0x0A)
          \<and> int (column T) = int (sv_data (value T)) - last_newline_before
            ([CHR 0x27, CHR ''a'', CHR 0x0A, CHR ''b'', CHR 0x27] @ '' x'' @ [CHR 0x0A] @ ''-- c''
              @ [CHR 0x0A] @ ''y /*'' @ [CHR 0x0A] @ ''*/ z'' @ [CHR 0x0A, CHR 0x0A] @ '' w'')
            (sv_data (value T)))
     (tokenize no_keywords no_keywords
        ([CHR 0x27, CHR ''a'', CHR 0x0A, CHR ''b'', CHR 0x27] @ '' x'' @ [CHR 0x0A] @ ''-- c''
          @ [CHR 0x0A] @ ''y /*'' @ [CHR 0x0A] @ ''*/ z'' @ [CHR 0x0A, CHR 0x0A] @ '' w''))"
proof
  show "map (\<lambda>T. (type T, sv_data (value T), sv_size (value T), line T, column T))
     (tokenize no_keywords no_keywords
        ([CHR 0x27, CHR ''a'', CHR 0x0A, CHR ''b'', CHR 0x27] @ '' x'' @ [CHR 0x0A] @ ''-- c''
          @ [CHR 0x0A] @ ''y /*'' @ [CHR 0x0A] @ ''*/ z'' @ [CHR 0x0A, CHR 0x0A] @ '' w''))
   = [(String, 0, 5, 1, 1), (Identifier, 6, 1, 2, 4), (Comment, 8, 5, 3, 1),
      (Identifier, 13, 1, 4, 1), (Comment, 15, 5, 4, 3), (Identifier, 21, 1, 5, 4),
      (Identifier, 25, 1, 7, 2)]"
    by code_simp
qed (rule token_line_column)

subsection \<open>The tokens cover the input\<close>

lemma length_skipped: "length (skipped X p) = skip_whitespace (drop p X)"
  using skip_whitespace_le [of "drop p X"] by (simp add: skipped_def)

lemma tiles_restore: "p \<le> length X \<Longrightarrow> tiles X p Ts \<Longrightarrow> restore X p Ts = drop p X"
proof (induction Ts arbitrary: p)
  case Nil
  then show ?case by (simp add: skipped_def)
next
  case (Cons T Ts)
  let ?n = "skip_whitespace (drop p X)"
  let ?m = "sv_size (value T)"
  from Cons.prems have d: "sv_data (value T) = p + ?n" and le: "p + ?n + ?m \<le> length X"
    and rest: "tiles X (p + ?n + ?m) Ts"
    by auto
  have "restore X (p + ?n + ?m) Ts = drop (p + ?n + ?m) X"
    using le rest by (rule Cons.IH)
  then have "restore X p (T # Ts) =
      take ?n (drop p X) @ take ?m (drop (p + ?n) X) @ drop (p + ?n + ?m) X"
    by (simp add: length_skipped view_def d) (simp add: skipped_def)
  also have "take ?m (drop (p + ?n) X) @ drop (p + ?n + ?m) X = drop (p + ?n) X"
    by (metis add.commute append_take_drop_id drop_drop)
  also have "take ?n (drop p X) @ drop (p + ?n) X = drop p X"
    by (metis add.commute append_take_drop_id drop_drop)
  finally show ?case .
qed

lemma tiles_starts:
  "tiles X p Ts \<Longrightarrow>
   sorted_wrt (<) (map (\<lambda>T. sv_data (value T)) Ts) \<and> list_all (\<lambda>T. p \<le> sv_data (value T)) Ts"
proof (induction Ts arbitrary: p)
  case Nil
  then show ?case by simp
next
  case (Cons T Ts)
  let ?e = "sv_data (value T) + sv_size (value T)"
  from Cons.prems have "tiles X ?e Ts" by (metis tiles.simps(2))
  then have IH: "sorted_wrt (<) (map (\<lambda>T. sv_data (value T)) Ts)"
    "list_all (\<lambda>T. ?e \<le> sv_data (value T)) Ts"
    using Cons.IH by blast+
  from IH(2) Cons.prems have "list_all (\<lambda>T'. sv_data (value T) < sv_data (value T')) Ts"
    "list_all (\<lambda>T'. p \<le> sv_data (value T')) Ts"
    by (auto simp: list_all_iff)
  with IH(1) Cons.prems show ?case by (auto simp: list_all_iff)
qed

lemma tokenize_loop_tiles:
  "m_position t \<le> m_input_size t \<Longrightarrow>
   tiles (m_input t) (m_position t) (tokenize_loop K S t [])"
proof (induction t rule: tokenize_induct [where K = K and S = S])
  case (step t)
  have pos: "m_position (after_skip t) =
      m_position t + skip_whitespace (drop (m_position t) (m_input t))"
    by (rule after_skip_position)
  show ?case
  proof (cases "m_position t < m_input_size t \<and> m_position (after_skip t) < m_input_size t")
    case False
    have "m_position (after_skip t) \<le> m_input_size t"
      using step.prems by (rule after_skip_bound)
    with False step.prems have "m_position (after_skip t) = m_input_size t"
      by (auto simp: pos skip_whitespace_def)
    with False show ?thesis by (subst tokenize_loop_Cons) (auto simp: pos)
  next
    case True
    let ?t1 = "after_skip t"
    let ?r = "next_token K S ?t1"
    have lt: "m_position ?t1 < m_input_size ?t1" using True by simp
    have adv: "advances ?t1 ?r" using lt by (rule next_token_advances)
    then have "tiles (m_input (snd ?r)) (m_position (snd ?r)) (tokenize_loop K S (snd ?r) [])"
      using step.IH True by (simp add: advances_def)
    with adv True show ?thesis
      by (subst tokenize_loop_Cons) (simp add: advances_def pos)
  qed
qed

text \<open>
  C1. For every input \<open>X\<close>, the values of the tokens returned by \<open>tokenize\<close>, interleaved
  in position order with the bytes skipped as whitespace, are \<open>X\<close> byte for byte, and the
  starting offsets of successive tokens are strictly increasing.
\<close>

theorem tokenize_coverage_and_order:
  "restore X 0 (tokenize K S X) = X
   \<and> sorted_wrt (<) (map (\<lambda>T. sv_data (value T)) (tokenize K S X))
   \<and> tiles X 0 (tokenize K S X)"
proof -
  have t: "tiles X 0 (tokenize K S X)"
    using tokenize_loop_tiles [of "new_tokenizer X" K S]
    by (simp add: tokenize_def new_tokenizer_def)
  then have "restore X 0 (tokenize K S X) = drop 0 X"
    by (intro tiles_restore) simp_all
  with t tiles_starts [OF t] show ?thesis by simp
qed

theorem tokenize_coverage_and_order_witness:
  "map (\<lambda>T. (sv_data (value T), view (''  a <= 10'' @ [CHR 0x0A, CHR 0x09] @ ''/* c'') (value T)))
     (tokenize no_keywords no_keywords (''  a <= 10'' @ [CHR 0x0A, CHR 0x09] @ ''/* c''))
   = [(2, ''a''), (4, ''<=''), (7, ''10''), (11, ''/* ''), (14, ''c'')]
   \<and> restore (''  a <= 10'' @ [CHR 0x0A, CHR 0x09] @ ''/* c'') 0
        (tokenize no_keywords no_keywords (''  a <= 10'' @ [CHR 0x0A, CHR 0x09] @ ''/* c''))
      = ''  a <= 10'' @ [CHR 0x0A, CHR 0x09] @ ''/* c''
   \<and> sorted_wrt (<) (map (\<lambda>T. sv_data (value T))
        (tokenize no_keywords no_keywords (''  a <= 10'' @ [CHR 0x0A, CHR 0x09] @ ''/* c'')))"
proof -
  have "map (\<lambda>T. (sv_data (value T), view (''  a <= 10'' @ [CHR 0x0A, CHR 0x09] @ ''/* c'') (value T)))
     (tokenize no_keywords no_keywords (''  a <= 10'' @ [CHR 0x0A, CHR 0x09] @ ''/* c''))
   = [(2, ''a''), (4, ''<=''), (7, ''10''), (11, ''/* ''), (14, ''c'')]"
    by code_simp
  then show ?thesis
    using tokenize_coverage_and_order [of "''  a <= 10'' @ [CHR 0x0A, CHR 0x09] @ ''/* c''"
        no_keywords no_keywords]
    by blast
qed

subsection \<open>Progress and termination\<close>

lemma ident_loop_total: "All ident_loop_dom"
  by (relation "measure (\<lambda>t. m_input_size t - m_position t)") auto

lemma number_loop_total: "All number_loop_dom"
  by (relation "measure (\<lambda>(d, e, t). m_input_size t - m_position t)") (auto simp: Let_def)

lemma string_loop_total: "All string_loop_dom"
  by (relation "measure (\<lambda>(q, t). m_input_size t - m_position t)") auto

lemma comment_loop_total: "All comment_loop_dom"
  by (relation "measure (\<lambda>t. m_input_size t - m_position t)") auto

lemma block_comment_loop_total: "All block_comment_loop_dom"
  by (relation "measure (\<lambda>t. m_input_size t - m_position t)") auto

text \<open>
  C10. Whenever \<open>next_token\<close> is invoked with the position strictly below the input
  length, it advances the position by at least one byte. No scan function advances the
  position past the input length, each one taken at the positions where \<open>next_token\<close>
  calls it (the comment scanners need two bytes, the string and operator scanners one).
  Therefore the loop of \<open>tokenize\<close> terminates on every tokenizer state, as do the loops
  of the scanners.
\<close>

theorem next_token_progress_and_termination:
  "(m_position t < m_input_size t \<longrightarrow>
      m_position t < m_position (snd (next_token K S t))
      \<and> m_position (snd (next_token K S t)) \<le> m_input_size t)
   \<and> (m_position t \<le> m_input_size t \<longrightarrow>
      m_position (snd (scan_identifier_or_keyword K S a b c t)) \<le> m_input_size t
      \<and> m_position (snd (scan_number a b c t)) \<le> m_input_size t)
   \<and> (m_position t < m_input_size t \<longrightarrow>
      m_position (snd (scan_string a b c q t)) \<le> m_input_size t
      \<and> m_position (snd (scan_operator_or_delimiter a b c t)) \<le> m_input_size t)
   \<and> (m_position t + 1 < m_input_size t \<longrightarrow>
      m_position (snd (scan_comment a b c t)) \<le> m_input_size t
      \<and> m_position (snd (scan_block_comment a b c t)) \<le> m_input_size t)
   \<and> tokenize_loop_dom (K, S, t, tokens)
   \<and> ident_loop_dom t \<and> number_loop_dom (has_dot, has_exp, t) \<and> string_loop_dom (q, t)
   \<and> comment_loop_dom t \<and> block_comment_loop_dom t"
proof -
  have "m_position t < m_position (snd (next_token K S t))
      \<and> m_position (snd (next_token K S t)) \<le> m_input_size t"
    if "m_position t < m_input_size t"
    using next_token_advances [OF that, of K S] by (simp add: advances_def)
  moreover have "m_position (snd (scan_identifier_or_keyword K S a b c t)) \<le> m_input_size t
      \<and> m_position (snd (scan_number a b c t)) \<le> m_input_size t"
    if "m_position t \<le> m_input_size t"
    using that ident_loop_bound [of t] number_loop_bound [of t False False]
    by (simp add: scan_identifier_or_keyword_def scan_number_def Let_def)
  moreover have "m_position (snd (scan_string a b c q t)) \<le> m_input_size t
      \<and> m_position (snd (scan_operator_or_delimiter a b c t)) \<le> m_input_size t"
    if "m_position t < m_input_size t"
    using that
      string_loop_bound [of "t\<lparr>m_position := m_position t + 1, m_column := m_column t + 1\<rparr>" q]
    by (simp add: scan_string_def scan_operator_or_delimiter_def Let_def)
  moreover have "m_position (snd (scan_comment a b c t)) \<le> m_input_size t
      \<and> m_position (snd (scan_block_comment a b c t)) \<le> m_input_size t"
    if "m_position t + 1 < m_input_size t"
    using that
      comment_loop_bound [of "t\<lparr>m_position := m_position t + 2, m_column := m_column t + 2\<rparr>"]
      block_comment_loop_bound [of "t\<lparr>m_position := m_position t + 2, m_column := m_column t + 2\<rparr>"]
    by (simp add: scan_comment_def scan_block_comment_def Let_def)
  ultimately show ?thesis
    using tokenize_loop_total ident_loop_total number_loop_total string_loop_total
      comment_loop_total block_comment_loop_total
    by blast
qed

theorem next_token_progress_and_termination_witness:
  "m_position (new_tokenizer ''-- x'') + 1 < m_input_size (new_tokenizer ''-- x'')
   \<and> m_position (snd (next_token no_keywords no_keywords (new_tokenizer ''-- x''))) = 4
   \<and> m_position (new_tokenizer ''-- x'')
        < m_position (snd (next_token no_keywords no_keywords (new_tokenizer ''-- x'')))
   \<and> m_position (snd (next_token no_keywords no_keywords (new_tokenizer ''-- x'')))
        \<le> m_input_size (new_tokenizer ''-- x'')
   \<and> m_position (snd (scan_identifier_or_keyword no_keywords no_keywords 0 1 1
          (new_tokenizer ''-- x''))) \<le> m_input_size (new_tokenizer ''-- x'')
   \<and> m_position (snd (scan_number 0 1 1 (new_tokenizer ''-- x'')))
        \<le> m_input_size (new_tokenizer ''-- x'')
   \<and> m_position (snd (scan_string 0 1 1 (CHR ''-'') (new_tokenizer ''-- x'')))
        \<le> m_input_size (new_tokenizer ''-- x'')
   \<and> m_position (snd (scan_operator_or_delimiter 0 1 1 (new_tokenizer ''-- x'')))
        \<le> m_input_size (new_tokenizer ''-- x'')
   \<and> m_position (snd (scan_comment 0 1 1 (new_tokenizer ''-- x'')))
        \<le> m_input_size (new_tokenizer ''-- x'')
   \<and> m_position (snd (scan_block_comment 0 1 1 (new_tokenizer ''-- x'')))
        \<le> m_input_size (new_tokenizer ''-- x'')
   \<and> tokenize_loop_dom (no_keywords, no_keywords, new_tokenizer ''-- x'', [])"
proof -
  have h: "m_position (new_tokenizer ''-- x'') + 1 < m_input_size (new_tokenizer ''-- x'')"
    by (simp add: new_tokenizer_def)
  have e: "m_position (snd (next_token no_keywords no_keywords (new_tokenizer ''-- x''))) = 4"
    by code_simp
  show ?thesis
    using h e
      next_token_progress_and_termination [of "new_tokenizer ''-- x''" no_keywords no_keywords
        0 1 1 "CHR ''-''" "[]" False False]
    by simp
qed

subsection \<open>Operators\<close>

lemma two_byte_operator_table:
  "two_byte_operator ch nxt \<longleftrightarrow> (ch, nxt) \<in> set extension_table"
  by (auto simp: two_byte_operator_def extension_table_def)

lemma bytes_at_Nil [simp]: "bytes_at X p []"
  by (simp add: bytes_at_def)

lemma bytes_at_Cons [simp]:
  "bytes_at X p (c # s) \<longleftrightarrow> p < length X \<and> X ! p = c \<and> bytes_at X (Suc p) s"
proof (cases "p < length X")
  case True
  then have "drop p X = X ! p # drop (Suc p) X" by (simp add: Cons_nth_drop_Suc)
  with True show ?thesis by (simp add: bytes_at_def)
next
  case False
  then show ?thesis by (simp add: bytes_at_def)
qed

lemma operator_bytes:
  assumes "c \<in> set ''-=!<>''"
  shows "\<not> is_identifier_start c" "\<not> is_digit c" "\<not> is_quote c" "\<not> is_delimiter c"
    "\<not> is_whitespace c"
  using assms by (auto simp: is_class_defs char_lookup_table_def char_class_defs)

text \<open>
  At an operator byte that does not open a comment, \<open>next_token\<close> is the operator
  scanner, and the token has two bytes exactly for a pair of the cascade.
\<close>

lemma next_token_operator:
  assumes lt: "m_position t < m_input_size t"
    and c: "m_input t ! m_position t \<in> set ''-=!<>''"
    and nc: "\<not> (m_input t ! m_position t = CHR ''-'' \<and> m_position t + 1 < m_input_size t
                \<and> m_input t ! (m_position t + 1) = CHR ''-'')"
  shows "next_token K S t =
     operator_token t
       (if m_position t + 1 < m_input_size t
           \<and> two_byte_operator (m_input t ! m_position t) (m_input t ! (m_position t + 1))
        then 2 else 1)"
proof -
  note o = operator_bytes [OF c]
  have slash: "m_input t ! m_position t \<noteq> CHR ''/''" using c by auto
  have "next_token K S t =
      scan_operator_or_delimiter (m_position t) (m_line t) (m_column t) t"
    using lt o nc slash by (auto simp: next_token_def Let_def)
  also have "\<dots> = operator_token t
       (if m_position t + 1 < m_input_size t
           \<and> two_byte_operator (m_input t ! m_position t) (m_input t ! (m_position t + 1))
        then 2 else 1)"
    using lt o by (simp add: scan_operator_or_delimiter_def operator_token_def Let_def)
  finally show ?thesis .
qed

lemma tokenize_loop_at_token:
  assumes "m_position t < m_input_size t" "\<not> is_whitespace (m_input t ! m_position t)"
  shows "tokenize_loop K S t [] =
     fst (next_token K S t) # tokenize_loop K S (snd (next_token K S t)) []"
proof -
  have "drop (m_position t) (m_input t) = m_input t ! m_position t # drop (Suc (m_position t)) (m_input t)"
    using assms(1) by (simp add: Cons_nth_drop_Suc)
  then have "skip_whitespace (drop (m_position t) (m_input t)) = 0"
    using assms(2) by (simp add: skip_whitespace_def)
  then have "after_skip t = t" by (simp add: after_skip_def)
  then show ?thesis using assms(1) by (subst tokenize_loop_Cons) simp
qed

lemma splits_asI:
  assumes lt: "m_position t + n < m_input_size t" and n: "0 < n"
    and c1: "m_input t ! m_position t \<in> set ''-=!<>''"
    and c2: "m_input t ! (m_position t + n) \<in> set ''=<>''"
    and t1: "next_token K S t = operator_token t n"
    and t2: "next_token K S (snd (operator_token t n)) = operator_token (snd (operator_token t n)) m"
  shows "splits_as K S t n m"
proof -
  let ?t' = "snd (operator_token t n)"
  have p': "m_position ?t' = m_position t + n" "m_input ?t' = m_input t"
    by (simp_all add: operator_token_def)
  have w1: "\<not> is_whitespace (m_input t ! m_position t)" using c1 by (rule operator_bytes(5))
  have "m_input t ! (m_position t + n) \<in> set ''-=!<>''" using c2 by auto
  then have w2: "\<not> is_whitespace (m_input ?t' ! m_position ?t')"
    unfolding p' by (rule operator_bytes(5))
  have "tokenize_loop K S t [] = fst (operator_token t n) # tokenize_loop K S ?t' []"
    using tokenize_loop_at_token [of t K S] lt w1 by (simp add: t1)
  also have "tokenize_loop K S ?t' [] =
      fst (operator_token ?t' m) # tokenize_loop K S (snd (operator_token ?t' m)) []"
    using tokenize_loop_at_token [of ?t' K S] lt w2 by (simp add: t2 p')
  finally show ?thesis using t1 t2 by (simp add: splits_as_def)
qed

lemma splits_as_triple_equals:
  assumes "bytes_at (m_input t) (m_position t) ''===''"
  shows "splits_as K S t 2 (if bytes_at (m_input t) (m_position t) ''===='' then 2 else 1)"
proof (rule splits_asI)
  let ?p = "m_position t" and ?X = "m_input t"
  let ?t' = "snd (operator_token t 2)"
  from assms have b: "Suc (Suc ?p) < length ?X" "?X ! ?p = CHR ''=''"
    "?X ! Suc ?p = CHR ''=''" "?X ! Suc (Suc ?p) = CHR ''=''"
    by simp_all
  show "?p + 2 < length ?X" "0 < (2::nat)" "?X ! ?p \<in> set ''-=!<>''"
    "?X ! (?p + 2) \<in> set ''=<>''"
    using b by simp_all
  show "next_token K S t = operator_token t 2"
    using b by (subst next_token_operator) (simp_all add: two_byte_operator_def)
  have p': "m_position ?t' = Suc (Suc ?p)" "m_input ?t' = ?X"
    by (simp_all add: operator_token_def)
  show "next_token K S ?t' =
      operator_token ?t' (if bytes_at ?X ?p ''===='' then 2 else 1)"
    using b by (subst next_token_operator) (auto simp: p' two_byte_operator_def)
qed


lemma splits_as_bang_equals:
  assumes "bytes_at (m_input t) (m_position t) ''!==''"
  shows "splits_as K S t 2 (if bytes_at (m_input t) (m_position t) ''!==='' then 2 else 1)"
proof (rule splits_asI)
  let ?p = "m_position t" and ?X = "m_input t"
  let ?t' = "snd (operator_token t 2)"
  from assms have b: "Suc (Suc ?p) < length ?X" "?X ! ?p = CHR ''!''"
    "?X ! Suc ?p = CHR ''=''" "?X ! Suc (Suc ?p) = CHR ''=''"
    by simp_all
  show "?p + 2 < length ?X" "0 < (2::nat)" "?X ! ?p \<in> set ''-=!<>''"
    "?X ! (?p + 2) \<in> set ''=<>''"
    using b by simp_all
  show "next_token K S t = operator_token t 2"
    using b by (subst next_token_operator) (simp_all add: two_byte_operator_def)
  have p': "m_position ?t' = Suc (Suc ?p)" "m_input ?t' = ?X"
    by (simp_all add: operator_token_def)
  show "next_token K S ?t' =
      operator_token ?t' (if bytes_at ?X ?p ''!==='' then 2 else 1)"
    using b by (subst next_token_operator) (auto simp: p' two_byte_operator_def)
qed

lemma splits_as_triple_less:
  assumes "bytes_at (m_input t) (m_position t) ''<<<''"
  shows "splits_as K S t 2
     (if bytes_at (m_input t) (m_position t) ''<<<=''
         \<or> bytes_at (m_input t) (m_position t) ''<<<>''
         \<or> bytes_at (m_input t) (m_position t) ''<<<<''
      then 2 else 1)"
proof (rule splits_asI)
  let ?p = "m_position t" and ?X = "m_input t"
  let ?t' = "snd (operator_token t 2)"
  from assms have b: "Suc (Suc ?p) < length ?X" "?X ! ?p = CHR ''<''"
    "?X ! Suc ?p = CHR ''<''" "?X ! Suc (Suc ?p) = CHR ''<''"
    by simp_all
  show "?p + 2 < length ?X" "0 < (2::nat)" "?X ! ?p \<in> set ''-=!<>''"
    "?X ! (?p + 2) \<in> set ''=<>''"
    using b by simp_all
  show "next_token K S t = operator_token t 2"
    using b by (subst next_token_operator) (simp_all add: two_byte_operator_def)
  have p': "m_position ?t' = Suc (Suc ?p)" "m_input ?t' = ?X"
    by (simp_all add: operator_token_def)
  show "next_token K S ?t' =
      operator_token ?t'
        (if bytes_at ?X ?p ''<<<='' \<or> bytes_at ?X ?p ''<<<>'' \<or> bytes_at ?X ?p ''<<<<''
         then 2 else 1)"
    using b by (subst next_token_operator) (auto simp: p' two_byte_operator_def)
qed

lemma splits_as_arrow:
  assumes "bytes_at (m_input t) (m_position t) ''->''"
  shows "splits_as K S t 1
     (if bytes_at (m_input t) (m_position t) ''->=''
         \<or> bytes_at (m_input t) (m_position t) ''->>''
      then 2 else 1)"
proof (rule splits_asI)
  let ?p = "m_position t" and ?X = "m_input t"
  let ?t' = "snd (operator_token t 1)"
  from assms have b: "Suc ?p < length ?X" "?X ! ?p = CHR ''-''" "?X ! Suc ?p = CHR ''>''"
    by simp_all
  show "?p + 1 < length ?X" "0 < (1::nat)" "?X ! ?p \<in> set ''-=!<>''"
    "?X ! (?p + 1) \<in> set ''=<>''"
    using b by simp_all
  show "next_token K S t = operator_token t 1"
    using b by (subst next_token_operator) (simp_all add: two_byte_operator_def)
  show "next_token K S ?t' =
      operator_token ?t'
        (if bytes_at ?X ?p ''->='' \<or> bytes_at ?X ?p ''->>'' then 2 else 1)"
    using b by (subst next_token_operator) (auto simp: operator_token_def two_byte_operator_def)
qed

text \<open>
  C4. \<open>scan_operator_or_delimiter\<close> consumes a second byte if and only if a next byte
  exists and the pair is one of \<open><= <> << >= >> != == || && ::\<close>; otherwise it consumes
  one byte. Consequently, in every input and for every keyword dictionary, wherever
  \<open>next_token\<close> starts at the bytes \<open>===\<close> it returns \<open>==\<close> and then a token that begins
  with the third \<open>=\<close>; at \<open>!==\<close> it returns \<open>!=\<close> and then a token that begins with \<open>=\<close>;
  at \<open><<<\<close> it returns \<open><<\<close> and then a token that begins with \<open><\<close>; at \<open>->\<close> it returns
  \<open>-\<close> alone and then a token that begins with \<open>>\<close>. That second token is the single
  byte unless the byte after it makes a pair of the table with it. These two tokens
  are the next two of \<open>tokenize\<close>. The inputs \<open>===\<close>, \<open>!==\<close>, \<open><<<\<close> and \<open>->\<close> themselves
  give \<open>==\<close> \<open>=\<close>, \<open>!=\<close> \<open>=\<close>, \<open><<\<close> \<open><\<close> and \<open>-\<close> \<open>>\<close>.
\<close>

theorem operator_second_byte:
  "(m_position t < m_input_size t \<longrightarrow>
      m_position (snd (scan_operator_or_delimiter (m_position t) (m_line t) (m_column t) t)) =
        (if m_position t + 1 < m_input_size t
            \<and> (m_input t ! m_position t, m_input t ! (m_position t + 1))
                   \<in> set extension_table
         then m_position t + 2 else m_position t + 1)
      \<and> sv_size (value (fst (scan_operator_or_delimiter
             (m_position t) (m_line t) (m_column t) t))) =
        (if m_position t + 1 < m_input_size t
            \<and> (m_input t ! m_position t, m_input t ! (m_position t + 1))
                   \<in> set extension_table
         then 2 else 1))
   \<and> (bytes_at (m_input t) (m_position t) ''==='' \<longrightarrow>
        splits_as K S t 2 (if bytes_at (m_input t) (m_position t) ''===='' then 2 else 1))
   \<and> (bytes_at (m_input t) (m_position t) ''!=='' \<longrightarrow>
        splits_as K S t 2 (if bytes_at (m_input t) (m_position t) ''!==='' then 2 else 1))
   \<and> (bytes_at (m_input t) (m_position t) ''<<<'' \<longrightarrow>
        splits_as K S t 2
          (if bytes_at (m_input t) (m_position t) ''<<<=''
              \<or> bytes_at (m_input t) (m_position t) ''<<<>''
              \<or> bytes_at (m_input t) (m_position t) ''<<<<''
           then 2 else 1))
   \<and> (bytes_at (m_input t) (m_position t) ''->'' \<longrightarrow>
        splits_as K S t 1
          (if bytes_at (m_input t) (m_position t) ''->=''
              \<or> bytes_at (m_input t) (m_position t) ''->>''
           then 2 else 1))
   \<and> lexemes ''==='' (tokenize K S ''==='') = [(Operator, ''==''), (Operator, ''='')]
   \<and> lexemes ''!=='' (tokenize K S ''!=='') = [(Operator, ''!=''), (Operator, ''='')]
   \<and> lexemes ''<<<'' (tokenize K S ''<<<'') = [(Operator, ''<<''), (Operator, ''<'')]
   \<and> lexemes ''->'' (tokenize K S ''->'') = [(Operator, ''-''), (Operator, ''>'')]"
proof (intro conjI impI)
  assume "m_position t < m_input_size t"
  then show "m_position (snd (scan_operator_or_delimiter (m_position t) (m_line t) (m_column t) t)) =
        (if m_position t + 1 < m_input_size t
            \<and> (m_input t ! m_position t, m_input t ! (m_position t + 1))
                   \<in> set extension_table
         then m_position t + 2 else m_position t + 1)"
    by (simp add: scan_operator_or_delimiter_def Let_def two_byte_operator_table)
  then show "sv_size (value (fst (scan_operator_or_delimiter
             (m_position t) (m_line t) (m_column t) t))) =
        (if m_position t + 1 < m_input_size t
            \<and> (m_input t ! m_position t, m_input t ! (m_position t + 1))
                   \<in> set extension_table
         then 2 else 1)"
    by (simp add: scan_operator_or_delimiter_def Let_def two_byte_operator_table)
next
  assume "bytes_at (m_input t) (m_position t) ''===''"
  then show "splits_as K S t 2 (if bytes_at (m_input t) (m_position t) ''===='' then 2 else 1)"
    by (rule splits_as_triple_equals)
next
  assume "bytes_at (m_input t) (m_position t) ''!==''"
  then show "splits_as K S t 2 (if bytes_at (m_input t) (m_position t) ''!==='' then 2 else 1)"
    by (rule splits_as_bang_equals)
next
  assume "bytes_at (m_input t) (m_position t) ''<<<''"
  then show "splits_as K S t 2
          (if bytes_at (m_input t) (m_position t) ''<<<=''
              \<or> bytes_at (m_input t) (m_position t) ''<<<>''
              \<or> bytes_at (m_input t) (m_position t) ''<<<<''
           then 2 else 1)"
    by (rule splits_as_triple_less)
next
  assume "bytes_at (m_input t) (m_position t) ''->''"
  then show "splits_as K S t 1
          (if bytes_at (m_input t) (m_position t) ''->=''
              \<or> bytes_at (m_input t) (m_position t) ''->>''
           then 2 else 1)"
    by (rule splits_as_arrow)
next
  show "lexemes ''==='' (tokenize K S ''==='') = [(Operator, ''==''), (Operator, ''='')]"
    by (simp add: tokenize_eval)
  show "lexemes ''!=='' (tokenize K S ''!=='') = [(Operator, ''!=''), (Operator, ''='')]"
    by (simp add: tokenize_eval)
  show "lexemes ''<<<'' (tokenize K S ''<<<'') = [(Operator, ''<<''), (Operator, ''<'')]"
    by (simp add: tokenize_eval)
  show "lexemes ''->'' (tokenize K S ''->'') = [(Operator, ''-''), (Operator, ''>'')]"
    by (simp add: tokenize_eval)
qed


theorem operator_second_byte_witness:
  "m_position (new_tokenizer ''<>='') < m_input_size (new_tokenizer ''<>='')
   \<and> m_position (snd (scan_operator_or_delimiter 0 1 1 (new_tokenizer ''<>=''))) = 2
   \<and> sv_size (value (fst (scan_operator_or_delimiter 0 1 1 (new_tokenizer ''<>='')))) = 2
   \<and> bytes_at ''a->b'' 1 ''->''
   \<and> splits_as no_keywords no_keywords
        \<lparr>m_input = ''a->b'', m_position = 1, m_line = 1, m_column = 2\<rparr> 1 1
   \<and> next_token no_keywords no_keywords
        \<lparr>m_input = ''a->b'', m_position = 1, m_line = 1, m_column = 2\<rparr>
       = (\<lparr>type = Operator, value = \<lparr>sv_data = 1, sv_size = 1\<rparr>, keyword_id = UNKNOWN,
            line = 1, column = 2\<rparr>,
          \<lparr>m_input = ''a->b'', m_position = 2, m_line = 1, m_column = 3\<rparr>)
   \<and> lexemes ''a->b'' (tokenize no_keywords no_keywords ''a->b'')
       = [(Identifier, ''a''), (Operator, ''-''), (Operator, ''>''), (Identifier, ''b'')]
   \<and> bytes_at ''x ==== y'' 2 ''===''
   \<and> splits_as no_keywords no_keywords
        \<lparr>m_input = ''x ==== y'', m_position = 2, m_line = 1, m_column = 3\<rparr> 2 2
   \<and> bytes_at ''a !== b'' 2 ''!==''
   \<and> splits_as no_keywords no_keywords
        \<lparr>m_input = ''a !== b'', m_position = 2, m_line = 1, m_column = 3\<rparr> 2 1
   \<and> bytes_at ''<<<'' 0 ''<<<''
   \<and> splits_as no_keywords no_keywords (new_tokenizer ''<<<'') 2 1
   \<and> lexemes ''a === b'' (tokenize no_keywords no_keywords ''a === b'')
       = [(Identifier, ''a''), (Operator, ''==''), (Operator, ''=''), (Identifier, ''b'')]
   \<and> lexemes ''==='' (tokenize no_keywords no_keywords ''==='')
       = [(Operator, ''==''), (Operator, ''='')]"
proof -
  have e: "lexemes ''a === b'' (tokenize no_keywords no_keywords ''a === b'')
       = [(Identifier, ''a''), (Operator, ''==''), (Operator, ''=''), (Identifier, ''b'')]"
    "lexemes ''a->b'' (tokenize no_keywords no_keywords ''a->b'')
       = [(Identifier, ''a''), (Operator, ''-''), (Operator, ''>''), (Identifier, ''b'')]"
    by code_simp+
  have n: "next_token no_keywords no_keywords
        \<lparr>m_input = ''a->b'', m_position = 1, m_line = 1, m_column = 2\<rparr>
       = (\<lparr>type = Operator, value = \<lparr>sv_data = 1, sv_size = 1\<rparr>, keyword_id = UNKNOWN,
            line = 1, column = 2\<rparr>,
          \<lparr>m_input = ''a->b'', m_position = 2, m_line = 1, m_column = 3\<rparr>)"
    by code_simp
  have b: "bytes_at ''a->b'' 1 ''->''" "bytes_at ''x ==== y'' 2 ''===''"
    "bytes_at ''x ==== y'' 2 ''====''" "bytes_at ''a !== b'' 2 ''!==''"
    "\<not> bytes_at ''a !== b'' 2 ''!===''" "bytes_at ''<<<'' 0 ''<<<''"
    by simp_all
  have s0: "m_position (new_tokenizer ''<>='') < m_input_size (new_tokenizer ''<>='')
     \<and> m_position (snd (scan_operator_or_delimiter 0 1 1 (new_tokenizer ''<>=''))) = 2
     \<and> sv_size (value (fst (scan_operator_or_delimiter 0 1 1 (new_tokenizer ''<>='')))) = 2"
    using operator_second_byte [of "new_tokenizer ''<>=''" no_keywords no_keywords]
    by (simp add: new_tokenizer_def extension_table_def)
  have s1: "splits_as no_keywords no_keywords
        \<lparr>m_input = ''a->b'', m_position = 1, m_line = 1, m_column = 2\<rparr> 1 1"
    using b(1) operator_second_byte
        [of "\<lparr>m_input = ''a->b'', m_position = 1, m_line = 1, m_column = 2\<rparr>"
          no_keywords no_keywords]
    by simp
  have s2: "splits_as no_keywords no_keywords
        \<lparr>m_input = ''x ==== y'', m_position = 2, m_line = 1, m_column = 3\<rparr> 2 2"
    using b(2,3) operator_second_byte
        [of "\<lparr>m_input = ''x ==== y'', m_position = 2, m_line = 1, m_column = 3\<rparr>"
          no_keywords no_keywords]
    by simp
  have s3: "splits_as no_keywords no_keywords
        \<lparr>m_input = ''a !== b'', m_position = 2, m_line = 1, m_column = 3\<rparr> 2 1"
    using b(4,5) operator_second_byte
        [of "\<lparr>m_input = ''a !== b'', m_position = 2, m_line = 1, m_column = 3\<rparr>"
          no_keywords no_keywords]
    by simp
  have s4: "splits_as no_keywords no_keywords (new_tokenizer ''<<<'') 2 1"
    using operator_second_byte [of "new_tokenizer ''<<<''" no_keywords no_keywords]
    by (simp add: new_tokenizer_def)
  have s5: "lexemes ''==='' (tokenize no_keywords no_keywords ''==='')
       = [(Operator, ''==''), (Operator, ''='')]"
    using operator_second_byte [of "new_tokenizer ''<<<''" no_keywords no_keywords]
    by blast
  show ?thesis
    using e n b(1,2,4,6) s0 s1 s2 s3 s4 s5 by blast
qed

subsection \<open>Bytes without a class\<close>

lemma length_char_lookup_table: "length char_lookup_table = 256"
  by (simp add: char_lookup_table_def)

lemma high_half_empty: "drop 128 char_lookup_table = replicate 128 0"
  by (simp add: char_lookup_table_def char_class_defs eval_nat_numeral)

lemma high_bytes_empty:
  assumes "128 \<le> (of_char ch :: nat)"
  shows "char_lookup_table ! of_char ch = 0"
proof -
  let ?n = "of_char ch :: nat"
  have lt: "?n < 256" by (rule of_char_lt_256)
  have "char_lookup_table ! ?n = drop 128 char_lookup_table ! (?n - 128)"
    using assms by (simp add: length_char_lookup_table)
  also have "\<dots> = replicate 128 0 ! (?n - 128)" by (simp only: high_half_empty)
  also have "\<dots> = 0"
  proof -
    have "?n - 128 < 128" using lt by arith
    then show ?thesis by (rule nth_replicate)
  qed
  finally show ?thesis .
qed

lemma empty_class_byte:
  assumes "char_lookup_table ! of_char ch = 0"
  shows "\<not> is_identifier_start ch" "\<not> is_digit ch" "\<not> is_quote ch" "\<not> is_delimiter ch"
    "ch \<noteq> CHR ''-''" "ch \<noteq> CHR ''/''" "\<not> two_byte_operator ch nxt"
proof -
  show "\<not> is_identifier_start ch" "\<not> is_digit ch" "\<not> is_quote ch" "\<not> is_delimiter ch"
    using assms by (simp_all add: is_class_defs)
  have "char_lookup_table ! of_char c \<noteq> 0"
    if "c \<in> set ''-/<>!=|&:''" for c
    using that by (auto simp: char_lookup_table_def char_class_defs)
  with assms have "ch \<notin> set ''-/<>!=|&:''" by blast
  then show "ch \<noteq> CHR ''-''" "ch \<noteq> CHR ''/''" "\<not> two_byte_operator ch nxt"
    by (auto simp: two_byte_operator_def)
qed

text \<open>
  C8. A byte whose entry in the classification table is 0, at a token start, gives a
  token of kind \<open>Operator\<close> that covers exactly this byte: it is not a delimiter and no
  two-byte extension applies. The entries of \<open>?\<close>, \<open>@\<close>, \<open>#\<close>, \<open>$\<close>, backslash, backtick
  and of every byte from 0x80 to 0xFF are 0.
\<close>

theorem empty_class_single_operator:
  "(m_position t < m_input_size t
      \<and> char_lookup_table ! of_char (m_input t ! m_position t) = 0 \<longrightarrow>
      next_token K S t =
        (\<lparr>type = Operator, value = \<lparr>sv_data = m_position t, sv_size = 1\<rparr>,
           keyword_id = UNKNOWN, line = m_line t, column = m_column t\<rparr>,
         t\<lparr>m_position := m_position t + 1, m_column := m_column t + 1\<rparr>)
      \<and> \<not> is_delimiter (m_input t ! m_position t)
      \<and> \<not> two_byte_operator (m_input t ! m_position t) nxt)
   \<and> list_all (\<lambda>c. char_lookup_table ! of_char c = 0) [CHR ''?'', CHR ''@'', CHR ''#'', CHR ''$'', CHR 0x5C, CHR 0x60]
   \<and> (128 \<le> (of_char ch :: nat) \<longrightarrow> char_lookup_table ! of_char ch = 0)"
proof (intro conjI impI)
  assume a: "m_position t < m_input_size t
      \<and> char_lookup_table ! of_char (m_input t ! m_position t) = 0"
  note e = empty_class_byte [of "m_input t ! m_position t"]
  from a show "next_token K S t =
        (\<lparr>type = Operator, value = \<lparr>sv_data = m_position t, sv_size = 1\<rparr>,
           keyword_id = UNKNOWN, line = m_line t, column = m_column t\<rparr>,
         t\<lparr>m_position := m_position t + 1, m_column := m_column t + 1\<rparr>)"
    by (simp add: next_token_def scan_operator_or_delimiter_def Let_def e)
  from a show "\<not> is_delimiter (m_input t ! m_position t)"
    "\<not> two_byte_operator (m_input t ! m_position t) nxt"
    by (simp_all add: e)
next
  show "list_all (\<lambda>c. char_lookup_table ! of_char c = 0)
      [CHR ''?'', CHR ''@'', CHR ''#'', CHR ''$'', CHR 0x5C, CHR 0x60]"
    by (simp add: char_lookup_table_def)
next
  assume "128 \<le> (of_char ch :: nat)"
  then show "char_lookup_table ! of_char ch = 0" by (rule high_bytes_empty)
qed

theorem empty_class_single_operator_witness:
  "m_position (new_tokenizer ''@='') < m_input_size (new_tokenizer ''@='')
   \<and> char_lookup_table ! of_char (m_input (new_tokenizer ''@='') ! m_position (new_tokenizer ''@='')) = 0
   \<and> next_token no_keywords no_keywords (new_tokenizer ''@='') =
        (\<lparr>type = Operator, value = \<lparr>sv_data = 0, sv_size = 1\<rparr>,
           keyword_id = UNKNOWN, line = 1, column = 1\<rparr>,
         \<lparr>m_input = ''@='', m_position = 1, m_line = 1, m_column = 2\<rparr>)
   \<and> (128::nat) \<le> of_char (CHR 0xC3)
   \<and> char_lookup_table ! of_char (CHR 0xC3) = 0
   \<and> lexemes [CHR 0xC3, CHR 0xA9, CHR ''?''] (tokenize no_keywords no_keywords [CHR 0xC3, CHR 0xA9, CHR ''?''])
       = [(Operator, [CHR 0xC3]), (Operator, [CHR 0xA9]), (Operator, ''?'')]"
proof -
  have h: "m_position (new_tokenizer ''@='') < m_input_size (new_tokenizer ''@='')
      \<and> char_lookup_table ! of_char (m_input (new_tokenizer ''@='') ! m_position (new_tokenizer ''@='')) = 0"
    by (simp add: new_tokenizer_def char_lookup_table_def)
  have g: "(128::nat) \<le> of_char (CHR 0xC3)" by simp
  have l: "lexemes [CHR 0xC3, CHR 0xA9, CHR ''?''] (tokenize no_keywords no_keywords [CHR 0xC3, CHR 0xA9, CHR ''?''])
       = [(Operator, [CHR 0xC3]), (Operator, [CHR 0xA9]), (Operator, ''?'')]"
    by code_simp
  show ?thesis
    using h g l
      empty_class_single_operator [of "new_tokenizer ''@=''" no_keywords no_keywords _ "CHR 0xC3"]
    by (simp add: new_tokenizer_def)
qed

subsection \<open>Block comments\<close>

text \<open>
  C2 (the code differs). A block comment opened by \<open>/*\<close> and never closed should extend
  to the end of the input. The loop of \<open>scan_block_comment\<close> runs while
  \<open>position_ + 1 < input_size_\<close> and so leaves the last byte outside the comment: on the
  six bytes \<open>/* abc\<close> the comment is \<open>/* ab\<close>, and \<open>c\<close> becomes a token of its own.
\<close>

theorem unterminated_block_comment_stops_short:
  "lexemes ''/* abc'' (tokenize no_keywords no_keywords ''/* abc'')
     = [(Comment, ''/* ab''), (Identifier, ''c'')]
   \<and> m_position (snd (scan_block_comment 0 1 1 (new_tokenizer ''/* abc''))) = 5
   \<and> m_input_size (new_tokenizer ''/* abc'') = 6"
  by (simp add: tokenize_eval no_keywords_def)

text \<open>
  C3, as stated: on the 16 bytes \<open>/* hi\<newline> there */x\<close> the comment token would have
  length 13 and \<open>x\<close> would be at column 11. The comment has 15 bytes and \<open>x\<close> is at
  column 10.
\<close>

theorem block_comment_scenario_counterexample:
  "length (''/* hi'' @ [CHR 0x0A] @ '' there */x'') = 16
   \<and> sv_size (value (tokenize no_keywords no_keywords
          (''/* hi'' @ [CHR 0x0A] @ '' there */x'') ! 0)) = 15
   \<and> sv_size (value (tokenize no_keywords no_keywords
          (''/* hi'' @ [CHR 0x0A] @ '' there */x'') ! 0)) \<noteq> 13
   \<and> column (tokenize no_keywords no_keywords
          (''/* hi'' @ [CHR 0x0A] @ '' there */x'') ! 1) = 10
   \<and> column (tokenize no_keywords no_keywords
          (''/* hi'' @ [CHR 0x0A] @ '' there */x'') ! 1) \<noteq> 11"
  by (simp add: tokenize_eval no_keywords_def)

text \<open>
  C3, amended: on the 16 bytes \<open>/* hi\<newline> there */x\<close>, \<open>tokenize\<close> returns exactly one
  \<open>Comment\<close> token of length 15 followed by an \<open>Identifier\<close> token with value \<open>x\<close> whose
  line is 2 and whose column is 10, for every keyword dictionary in which \<open>x\<close> is not a
  keyword.
\<close>

theorem block_comment_scenario:
  assumes "find_keyword ''x'' = UNKNOWN" "is_keyword_simd ''x'' = UNKNOWN"
  shows "tokenize find_keyword is_keyword_simd (''/* hi'' @ [CHR 0x0A] @ '' there */x'')
     = [\<lparr>type = Comment, value = \<lparr>sv_data = 0, sv_size = 15\<rparr>, keyword_id = UNKNOWN,
          line = 1, column = 1\<rparr>,
        \<lparr>type = Identifier, value = \<lparr>sv_data = 15, sv_size = 1\<rparr>, keyword_id = UNKNOWN,
          line = 2, column = 10\<rparr>]"
  using assms by (simp add: tokenize_eval)

theorem block_comment_scenario_witness:
  "no_keywords ''x'' = UNKNOWN
   \<and> tokenize no_keywords no_keywords (''/* hi'' @ [CHR 0x0A] @ '' there */x'')
     = [\<lparr>type = Comment, value = \<lparr>sv_data = 0, sv_size = 15\<rparr>, keyword_id = UNKNOWN,
          line = 1, column = 1\<rparr>,
        \<lparr>type = Identifier, value = \<lparr>sv_data = 15, sv_size = 1\<rparr>, keyword_id = UNKNOWN,
          line = 2, column = 10\<rparr>]
   \<and> view (''/* hi'' @ [CHR 0x0A] @ '' there */x'') \<lparr>sv_data = 15, sv_size = 1\<rparr> = ''x''"
proof -
  have h: "no_keywords ''x'' = UNKNOWN" by (simp add: no_keywords_def)
  show ?thesis
    using h block_comment_scenario [of no_keywords no_keywords, OF h h] by (simp add: view_def)
qed

subsection \<open>String literals\<close>

lemma string_rest_le: "string_rest q xs \<le> length xs"
  by (induction q xs rule: string_rest.induct) auto

lemma string_rest_open: "\<not> string_closed q xs \<Longrightarrow> string_rest q xs = length xs"
  by (induction q xs rule: string_rest.induct) (auto split: if_splits)

lemma string_rest_closed:
  "string_closed q xs \<Longrightarrow> 0 < string_rest q xs \<and> xs ! (string_rest q xs - 1) = q"
  by (induction q xs rule: string_rest.induct) (auto split: if_splits)

lemma drop_two:
  "p + 1 < length X \<Longrightarrow> drop p X = X ! p # X ! (p + 1) # drop (p + 2) X"
  by (metis Cons_nth_drop_Suc Suc_eq_plus1 add_2_eq_Suc' add_lessD1)

lemma drop_last: "p < length X \<Longrightarrow> \<not> p + 1 < length X \<Longrightarrow> drop p X = [X ! p]"
  by (metis Cons_nth_drop_Suc Suc_eq_plus1 drop_all linorder_not_less)

lemma string_loop_rest:
  "m_position t \<le> m_input_size t \<Longrightarrow>
   m_position (string_loop q t) =
     m_position t + string_rest q (drop (m_position t) (m_input t))"
proof (induction q t rule: string_loop.induct)
  case (1 q t)
  let ?p = "m_position t" and ?X = "m_input t"
  show ?case
  proof (cases "?p < length ?X")
    case False
    then show ?thesis using 1 by (subst string_loop.simps) simp
  next
    case lt: True
    show ?thesis
    proof (cases "?p + 1 < length ?X")
      case last: False
      have d: "drop ?p ?X = [?X ! ?p]" using lt last by (rule drop_last)
      have "m_position (string_loop q t) = ?p + 1"
        using lt last
        by (subst string_loop.simps, simp) (subst string_loop.simps, simp)+
      then show ?thesis by (simp add: d)
    next
      case two: True
      have d: "drop ?p ?X = ?X ! ?p # ?X ! (?p + 1) # drop (?p + 2) ?X"
        using two by (rule drop_two)
      have d1: "drop (Suc ?p) ?X = ?X ! Suc ?p # drop (Suc (Suc ?p)) ?X"
        using two by (simp add: Cons_nth_drop_Suc)
      consider (escaped) "?X ! ?p = q" "?X ! (?p + 1) = q"
        | (closing) "?X ! ?p = q" "?X ! (?p + 1) \<noteq> q"
        | (newline) "?X ! ?p \<noteq> q" "?X ! ?p = CHR 0x0A"
        | (other) "?X ! ?p \<noteq> q" "?X ! ?p \<noteq> CHR 0x0A"
        by blast
      then show ?thesis
      proof cases
        case escaped
        then have "m_position (string_loop q t) =
            m_position (string_loop q (t\<lparr>m_position := ?p + 2, m_column := m_column t + 2\<rparr>))"
          using lt two by (subst string_loop.simps) simp
        also have "\<dots> = ?p + 2 + string_rest q (drop (?p + 2) ?X)"
          using "1.IH"(1) lt two escaped by simp
        finally show ?thesis using escaped by (subst d) simp
      next
        case closing
        then have "m_position (string_loop q t) = ?p + 1"
          using lt by (subst string_loop.simps) simp
        then show ?thesis using closing by (subst d) simp
      next
        case newline
        then have "m_position (string_loop q t) =
            m_position (string_loop q
              (t\<lparr>m_position := ?p + 1, m_line := m_line t + 1, m_column := 1\<rparr>))"
          using lt by (subst string_loop.simps) simp
        also have "\<dots> = ?p + 1 + string_rest q (drop (?p + 1) ?X)"
          using "1.IH"(2) lt newline by simp
        finally show ?thesis using newline by (subst d) (simp add: d1)
      next
        case other
        then have "m_position (string_loop q t) =
            m_position (string_loop q (t\<lparr>m_position := ?p + 1, m_column := m_column t + 1\<rparr>))"
          using lt by (subst string_loop.simps) simp
        also have "\<dots> = ?p + 1 + string_rest q (drop (?p + 1) ?X)"
          using "1.IH"(3) lt other by simp
        finally show ?thesis using other by (subst d) (simp add: d1)
      qed
    qed
  qed
qed


lemma table_entry_cases:
  "char_lookup_table ! of_char ch \<in>
     {0, CHAR_WHITESPACE, CHAR_ALPHA_UPPER, CHAR_ALPHA_LOWER, CHAR_DIGIT, CHAR_UNDERSCORE,
      CHAR_QUOTE, CHAR_OPERATOR, CHAR_DELIMITER}"
proof -
  have "set char_lookup_table \<subseteq>
     {0, CHAR_WHITESPACE, CHAR_ALPHA_UPPER, CHAR_ALPHA_LOWER, CHAR_DIGIT, CHAR_UNDERSCORE,
      CHAR_QUOTE, CHAR_OPERATOR, CHAR_DELIMITER}"
    by (simp add: char_lookup_table_def)
  moreover have "char_lookup_table ! of_char ch \<in> set char_lookup_table"
    by (rule nth_mem) (simp add: length_char_lookup_table of_char_lt_256)
  ultimately show ?thesis by blast
qed

lemma quote_only: "is_quote ch \<Longrightarrow> \<not> is_identifier_start ch \<and> \<not> is_digit ch"
  using table_entry_cases [of ch] unfolding is_class_defs
  by (auto simp: char_class_defs)

lemma digit_only: "is_digit ch \<Longrightarrow> \<not> is_identifier_start ch"
  using table_entry_cases [of ch] unfolding is_class_defs
  by (auto simp: char_class_defs)

lemma scan_string_rest:
  assumes "m_position t < m_input_size t"
  shows "m_position (snd (scan_string a b c q t)) =
     m_position t + 1 + string_rest q (drop (m_position t + 1) (m_input t))"
  using assms
    string_loop_rest [of "t\<lparr>m_position := m_position t + 1, m_column := m_column t + 1\<rparr>" q]
  by (simp add: scan_string_def Let_def)

text \<open>
  C6, as stated, counts 6 bytes in \<open>'it''s'\<close> and gives its token the length 6. The
  input has 7 bytes (two quotes, \<open>it\<close>, the doubled quote and \<open>s\<close>), and so has its token.
\<close>

theorem string_literal_scenario_counterexample:
  "length [CHR 0x27, CHR ''i'', CHR ''t'', CHR 0x27, CHR 0x27, CHR ''s'', CHR 0x27] = 7
   \<and> map (\<lambda>T. (type T, sv_size (value T)))
        (tokenize no_keywords no_keywords
          [CHR 0x27, CHR ''i'', CHR ''t'', CHR 0x27, CHR 0x27, CHR ''s'', CHR 0x27])
       = [(String, 7)]
   \<and> map (\<lambda>T. (type T, sv_size (value T)))
        (tokenize no_keywords no_keywords
          [CHR 0x27, CHR ''i'', CHR ''t'', CHR 0x27, CHR 0x27, CHR ''s'', CHR 0x27])
       \<noteq> [(String, 6)]"
  by (simp add: tokenize_eval)

text \<open>
  C6, amended. In string scanning, a byte equal to the opening quote terminates the literal unless
  the byte right after it is the same quote; then both are consumed as an escaped quote
  and scanning goes on (\<open>string_rest\<close>, \<open>string_closed\<close>). The value of a closed string
  begins with the opening quote and ends with the closing one; the value of a string
  that is not closed runs to the end of the input. The 7 bytes \<open>'it''s'\<close> are one \<open>String\<close>
  token of length 7, and the single byte \<open>"\<close> is one \<open>String\<close> token of length 1.
\<close>

theorem string_literal_scan:
  "(m_position t < m_input_size t \<and> is_quote (m_input t ! m_position t) \<longrightarrow>
      type (fst (next_token K S t)) = String
      \<and> value (fst (next_token K S t)) =
          \<lparr>sv_data = m_position t,
           sv_size = 1 + string_rest (m_input t ! m_position t)
                           (drop (m_position t + 1) (m_input t))\<rparr>
      \<and> m_position (snd (next_token K S t)) =
          m_position t + 1 + string_rest (m_input t ! m_position t)
                               (drop (m_position t + 1) (m_input t))
      \<and> (if string_closed (m_input t ! m_position t) (drop (m_position t + 1) (m_input t))
         then m_input t ! (m_position (snd (next_token K S t)) - 1) = m_input t ! m_position t
              \<and> m_position t + 2 \<le> m_position (snd (next_token K S t))
         else m_position (snd (next_token K S t)) = m_input_size t))
   \<and> tokenize K S [CHR 0x27, CHR ''i'', CHR ''t'', CHR 0x27, CHR 0x27, CHR ''s'', CHR 0x27]
       = [\<lparr>type = String, value = \<lparr>sv_data = 0, sv_size = 7\<rparr>, keyword_id = UNKNOWN,
            line = 1, column = 1\<rparr>]
   \<and> tokenize K S [CHR 0x22]
       = [\<lparr>type = String, value = \<lparr>sv_data = 0, sv_size = 1\<rparr>, keyword_id = UNKNOWN,
            line = 1, column = 1\<rparr>]"
proof (intro conjI impI)
  assume a: "m_position t < m_input_size t \<and> is_quote (m_input t ! m_position t)"
  let ?p = "m_position t" and ?q = "m_input t ! m_position t"
  let ?rest = "drop (m_position t + 1) (m_input t)"
  have q: "\<not> is_identifier_start ?q" "\<not> is_digit ?q"
    using a quote_only [of ?q] by simp_all
  have nt: "next_token K S t = scan_string ?p (m_line t) (m_column t) ?q t"
    using a q by (simp add: next_token_def Let_def)
  show "type (fst (next_token K S t)) = String"
    by (simp add: nt scan_string_def Let_def)
  show pos: "m_position (snd (next_token K S t)) = ?p + 1 + string_rest ?q ?rest"
    using a by (simp add: nt scan_string_rest)
  show "value (fst (next_token K S t)) = \<lparr>sv_data = ?p, sv_size = 1 + string_rest ?q ?rest\<rparr>"
    using pos by (simp add: nt scan_string_def Let_def)
  show "if string_closed ?q ?rest
        then m_input t ! (m_position (snd (next_token K S t)) - 1) = ?q
             \<and> ?p + 2 \<le> m_position (snd (next_token K S t))
        else m_position (snd (next_token K S t)) = m_input_size t"
  proof (cases "string_closed ?q ?rest")
    case True
    note c = string_rest_closed [OF True]
    have le: "string_rest ?q ?rest \<le> length ?rest" by (rule string_rest_le)
    have "?rest ! (string_rest ?q ?rest - 1) = m_input t ! (?p + 1 + (string_rest ?q ?rest - 1))"
      using c le a by (subst nth_drop) simp_all
    with c True show ?thesis by (simp add: pos)
  next
    case False
    then show ?thesis using a string_rest_open [OF False] by (auto simp: pos)
  qed
next
  show "tokenize K S [CHR 0x27, CHR ''i'', CHR ''t'', CHR 0x27, CHR 0x27, CHR ''s'', CHR 0x27]
       = [\<lparr>type = String, value = \<lparr>sv_data = 0, sv_size = 7\<rparr>, keyword_id = UNKNOWN,
            line = 1, column = 1\<rparr>]"
    by (simp add: tokenize_eval)
  show "tokenize K S [CHR 0x22]
       = [\<lparr>type = String, value = \<lparr>sv_data = 0, sv_size = 1\<rparr>, keyword_id = UNKNOWN,
            line = 1, column = 1\<rparr>]"
    by (simp add: tokenize_eval)
qed


theorem string_literal_scan_witness:
  "m_position (new_tokenizer (CHR 0x27 # ''a'' @ [CHR 0x27, CHR 0x27] @ ''b'' @ [CHR 0x27] @ '' c''))
     < m_input_size (new_tokenizer (CHR 0x27 # ''a'' @ [CHR 0x27, CHR 0x27] @ ''b'' @ [CHR 0x27] @ '' c''))
   \<and> is_quote (CHR 0x27) \<and> is_quote (CHR 0x22)
   \<and> string_closed (CHR 0x27) (''a'' @ [CHR 0x27, CHR 0x27] @ ''b'' @ [CHR 0x27] @ '' c'')
   \<and> string_rest (CHR 0x27) (''a'' @ [CHR 0x27, CHR 0x27] @ ''b'' @ [CHR 0x27] @ '' c'') = 5
   \<and> fst (next_token no_keywords no_keywords
        (new_tokenizer (CHR 0x27 # ''a'' @ [CHR 0x27, CHR 0x27] @ ''b'' @ [CHR 0x27] @ '' c'')))
       = \<lparr>type = String, value = \<lparr>sv_data = 0, sv_size = 6\<rparr>, keyword_id = UNKNOWN,
            line = 1, column = 1\<rparr>
   \<and> \<not> string_closed (CHR 0x22) ''ab''
   \<and> m_position (snd (next_token no_keywords no_keywords (new_tokenizer (CHR 0x22 # ''ab''))))
       = m_input_size (new_tokenizer (CHR 0x22 # ''ab''))
   \<and> value (fst (next_token no_keywords no_keywords (new_tokenizer (CHR 0x22 # ''ab''))))
       = \<lparr>sv_data = 0, sv_size = 3\<rparr>"
proof -
  have q: "is_quote (CHR 0x27)" "is_quote (CHR 0x22)"
    by (simp_all add: is_class_defs char_lookup_table_def char_class_defs)
  have e: "fst (next_token no_keywords no_keywords
        (new_tokenizer (CHR 0x27 # ''a'' @ [CHR 0x27, CHR 0x27] @ ''b'' @ [CHR 0x27] @ '' c'')))
       = \<lparr>type = String, value = \<lparr>sv_data = 0, sv_size = 6\<rparr>, keyword_id = UNKNOWN,
            line = 1, column = 1\<rparr>"
    by code_simp
  show ?thesis
    using q e
      string_literal_scan [of "new_tokenizer (CHR 0x27 # ''a'' @ [CHR 0x27, CHR 0x27] @ ''b'' @ [CHR 0x27] @ '' c'')"
        no_keywords no_keywords]
      string_literal_scan [of "new_tokenizer (CHR 0x22 # ''ab'')" no_keywords no_keywords]
    by (simp add: new_tokenizer_def)
qed

subsection \<open>Numbers\<close>

lemma not_digit_punctuation:
  "\<not> is_digit (CHR ''.'')" "\<not> is_digit (CHR ''e'')" "\<not> is_digit (CHR ''E'')"
  "\<not> is_digit (CHR ''+'')" "\<not> is_digit (CHR ''-'')"
  by (simp_all add: is_class_defs char_lookup_table_def char_class_defs)

lemma number_rest_le: "number_rest d e xs \<le> length xs"
proof (induction d e xs rule: number_rest.induct)
  case (1 d e)
  show ?case by simp
next
  case (2 d e c cs)
  show ?case
  proof (cases cs)
    case Nil
    then show ?thesis by simp
  next
    case (Cons s rest)
    with 2 show ?thesis by (simp del: number_rest.simps add: number_rest.simps(2) [of _ _ c])
  qed
qed

lemma number_rest_dots:
  "count_list (take (number_rest d e xs) xs) (CHR ''.'') \<le> (if d \<or> e then 0 else 1)"
proof (induction d e xs rule: number_rest.induct)
  case (1 d e)
  show ?case by simp
next
  case (2 d e c cs)
  show ?case
  proof (cases cs)
    case Nil
    then show ?thesis using not_digit_punctuation by auto
  next
    case (Cons s rest)
    with 2 show ?thesis
      using not_digit_punctuation
      by (auto simp del: number_rest.simps simp add: number_rest.simps(2) [of _ _ c])
  qed
qed

lemma number_rest_exponents:
  "length (filter exponent_marker (take (number_rest d e xs) xs)) \<le> (if e then 0 else 1)"
proof (induction d e xs rule: number_rest.induct)
  case (1 d e)
  show ?case by simp
next
  case (2 d e c cs)
  show ?case
  proof (cases cs)
    case Nil
    then show ?thesis using not_digit_punctuation by (auto simp: exponent_marker_def)
  next
    case (Cons s rest)
    with 2 show ?thesis
      using not_digit_punctuation
      by (auto simp del: number_rest.simps
          simp add: number_rest.simps(2) [of _ _ c] exponent_marker_def)
  qed
qed

lemma number_loop_rest:
  "m_position t \<le> m_input_size t \<Longrightarrow>
   m_position (number_loop d e t) =
     m_position t + number_rest d e (drop (m_position t) (m_input t))"
proof (induction d e t rule: number_loop.induct)
  case (1 d e t)
  let ?p = "m_position t" and ?X = "m_input t"
  show ?case
  proof (cases "?p < length ?X")
    case False
    then show ?thesis using 1 by (subst number_loop.simps) simp
  next
    case lt: True
    let ?ch = "?X ! ?p"
    let ?t1 = "t\<lparr>m_position := ?p + 1, m_column := m_column t + 1\<rparr>"
    have d: "drop ?p ?X = ?ch # drop (Suc ?p) ?X"
      using lt by (simp add: Cons_nth_drop_Suc)
    consider (digit) "is_digit ?ch"
      | (dot) "\<not> is_digit ?ch" "?ch = CHR ''.''" "\<not> d" "\<not> e"
      | (exp) "\<not> is_digit ?ch" "\<not> (?ch = CHR ''.'' \<and> \<not> d \<and> \<not> e)"
          "?ch = CHR ''e'' \<or> ?ch = CHR ''E''" "\<not> e"
      | (stop) "\<not> is_digit ?ch" "\<not> (?ch = CHR ''.'' \<and> \<not> d \<and> \<not> e)"
          "\<not> ((?ch = CHR ''e'' \<or> ?ch = CHR ''E'') \<and> \<not> e)"
      by blast
    then show ?thesis
    proof cases
      case digit
      then have "m_position (number_loop d e t) = m_position (number_loop d e ?t1)"
        using lt by (subst number_loop.simps) simp
      also have "\<dots> = ?p + 1 + number_rest d e (drop (Suc ?p) ?X)"
        using "1.IH"(1) [of ?ch] lt digit by simp
      finally show ?thesis using digit by (subst d) simp
    next
      case dot
      then have "m_position (number_loop d e t) = m_position (number_loop True e ?t1)"
        using lt by (subst number_loop.simps) simp
      also have "\<dots> = ?p + 1 + number_rest True e (drop (Suc ?p) ?X)"
        using "1.IH"(2) [of ?ch] lt dot by simp
      finally show ?thesis using dot by (subst d) simp
    next
      case exp
      let ?t2 = "if m_position ?t1 < m_input_size ?t1
                   \<and> (m_input ?t1 ! m_position ?t1 = CHR ''+''
                        \<or> m_input ?t1 ! m_position ?t1 = CHR ''-'')
                 then ?t1\<lparr>m_position := m_position ?t1 + 1, m_column := m_column ?t1 + 1\<rparr>
                 else ?t1"
      have c: "(?ch = CHR ''e'' \<or> ?ch = CHR ''E'') \<and> \<not> e" using exp by simp
      have le: "m_position ?t2 \<le> m_input_size ?t2" using lt by simp
      have unf: "number_loop d e t = number_loop d True ?t2"
        using lt exp by (subst number_loop.simps) (auto simp: Let_def)
      have IH: "m_position (number_loop d True ?t2) =
          m_position ?t2 + number_rest d True (drop (m_position ?t2) (m_input ?t2))"
        by (rule "1.IH"(3) [of ?ch, unfolded Let_def, OF lt refl exp(1) exp(2) c le])
      have lhs: "m_position (number_loop d e t) =
          m_position ?t2 + number_rest d True (drop (m_position ?t2) ?X)"
        using IH by (simp only: unf) simp
      have rhs: "number_rest d e (drop ?p ?X) =
          (if drop (Suc ?p) ?X \<noteq> []
              \<and> (hd (drop (Suc ?p) ?X) = CHR ''+'' \<or> hd (drop (Suc ?p) ?X) = CHR ''-'')
           then 2 + number_rest d True (tl (drop (Suc ?p) ?X))
           else 1 + number_rest d True (drop (Suc ?p) ?X))"
        using exp by (subst d) auto
      show ?thesis
      proof (cases "Suc ?p < length ?X")
        case False
        then have "drop (Suc ?p) ?X = []" by simp
        with False show ?thesis by (simp add: lhs rhs)
      next
        case True
        then have d1: "drop (Suc ?p) ?X = ?X ! Suc ?p # drop (Suc (Suc ?p)) ?X"
          by (simp add: Cons_nth_drop_Suc)
        show ?thesis using True by (simp add: lhs rhs) (simp add: d1)
      qed
    next
      case stop
      then have "m_position (number_loop d e t) = ?p"
        using lt by (subst number_loop.simps) auto
      then show ?thesis using stop by (subst d) auto
    qed
  qed
qed


text \<open>
  C7. A \<open>Number\<close> token, begun at a digit, is the greedy consumption of digits, of at most
  one decimal point (forbidden once an exponent marker has been seen) and of at most one
  exponent marker \<open>e\<close> or \<open>E\<close>, with a single \<open>+\<close> or \<open>-\<close> right after the marker taken
  along (\<open>number_rest\<close>); no digit is required after the marker or the sign. The input
  \<open>1.5e+3\<close> is exactly one \<open>Number\<close> token of length 6.
\<close>

theorem number_scan:
  "(m_position t < m_input_size t \<and> is_digit (m_input t ! m_position t) \<longrightarrow>
      type (fst (next_token K S t)) = Number
      \<and> value (fst (next_token K S t)) =
          \<lparr>sv_data = m_position t,
           sv_size = number_rest False False (drop (m_position t) (m_input t))\<rparr>
      \<and> m_position (snd (next_token K S t)) =
          m_position t + number_rest False False (drop (m_position t) (m_input t))
      \<and> count_list (view (m_input t) (value (fst (next_token K S t)))) (CHR ''.'') \<le> 1
      \<and> length (filter exponent_marker (view (m_input t) (value (fst (next_token K S t))))) \<le> 1)
   \<and> tokenize K S ''1.5e+3''
       = [\<lparr>type = Number, value = \<lparr>sv_data = 0, sv_size = 6\<rparr>, keyword_id = UNKNOWN,
            line = 1, column = 1\<rparr>]
   \<and> lexemes ''1e'' (tokenize K S ''1e'') = [(Number, ''1e'')]
   \<and> lexemes ''2E-'' (tokenize K S ''2E-'') = [(Number, ''2E-'')]
   \<and> lexemes ''1e5.2'' (tokenize K S ''1e5.2'')
       = [(Number, ''1e5''), (Operator, ''.''), (Number, ''2'')]
   \<and> lexemes ''1.2.3'' (tokenize K S ''1.2.3'')
       = [(Number, ''1.2''), (Operator, ''.''), (Number, ''3'')]
   \<and> lexemes ''1e+-2'' (tokenize K S ''1e+-2'')
       = [(Number, ''1e+''), (Operator, ''-''), (Number, ''2'')]"
proof (intro conjI impI)
  assume a: "m_position t < m_input_size t \<and> is_digit (m_input t ! m_position t)"
  let ?p = "m_position t" and ?X = "m_input t"
  let ?n = "number_rest False False (drop ?p ?X)"
  have nt: "next_token K S t = scan_number ?p (m_line t) (m_column t) t"
    using a digit_only [of "?X ! ?p"] by (simp add: next_token_def Let_def)
  have pos: "m_position (number_loop False False t) = ?p + ?n"
    using a by (intro number_loop_rest) simp
  show "type (fst (next_token K S t)) = Number"
    by (simp add: nt scan_number_def Let_def)
  show v: "value (fst (next_token K S t)) = \<lparr>sv_data = ?p, sv_size = ?n\<rparr>"
    by (simp add: nt scan_number_def Let_def pos)
  show "m_position (snd (next_token K S t)) = ?p + ?n"
    by (simp add: nt scan_number_def Let_def pos)
  show "count_list (view ?X (value (fst (next_token K S t)))) (CHR ''.'') \<le> 1"
    using number_rest_dots [of False False "drop ?p ?X"] by (simp add: v view_def)
  show "length (filter exponent_marker (view ?X (value (fst (next_token K S t))))) \<le> 1"
    using number_rest_exponents [of False False "drop ?p ?X"] by (simp add: v view_def)
next
  show "tokenize K S ''1.5e+3''
       = [\<lparr>type = Number, value = \<lparr>sv_data = 0, sv_size = 6\<rparr>, keyword_id = UNKNOWN,
            line = 1, column = 1\<rparr>]"
    by (simp add: tokenize_eval)
  show "lexemes ''1e'' (tokenize K S ''1e'') = [(Number, ''1e'')]"
    by (simp add: tokenize_eval)
  show "lexemes ''2E-'' (tokenize K S ''2E-'') = [(Number, ''2E-'')]"
    by (simp add: tokenize_eval)
  show "lexemes ''1e5.2'' (tokenize K S ''1e5.2'')
       = [(Number, ''1e5''), (Operator, ''.''), (Number, ''2'')]"
    by (simp add: tokenize_eval)
  show "lexemes ''1.2.3'' (tokenize K S ''1.2.3'')
       = [(Number, ''1.2''), (Operator, ''.''), (Number, ''3'')]"
    by (simp add: tokenize_eval)
  show "lexemes ''1e+-2'' (tokenize K S ''1e+-2'')
       = [(Number, ''1e+''), (Operator, ''-''), (Number, ''2'')]"
    by (simp add: tokenize_eval)
qed

theorem number_scan_witness:
  "m_position (new_tokenizer ''12.5E-7.e'') < m_input_size (new_tokenizer ''12.5E-7.e'')
   \<and> is_digit (CHR ''1'')
   \<and> number_rest False False ''12.5E-7.e'' = 7
   \<and> next_token no_keywords no_keywords (new_tokenizer ''12.5E-7.e'') =
        (\<lparr>type = Number, value = \<lparr>sv_data = 0, sv_size = 7\<rparr>, keyword_id = UNKNOWN,
           line = 1, column = 1\<rparr>,
         \<lparr>m_input = ''12.5E-7.e'', m_position = 7, m_line = 1, m_column = 8\<rparr>)
   \<and> count_list (view ''12.5E-7.e'' \<lparr>sv_data = 0, sv_size = 7\<rparr>) (CHR ''.'') = 1
   \<and> length (filter exponent_marker (view ''12.5E-7.e'' \<lparr>sv_data = 0, sv_size = 7\<rparr>)) = 1
   \<and> type (fst (next_token no_keywords no_keywords (new_tokenizer ''12.5E-7.e''))) = Number
   \<and> tokenize no_keywords no_keywords ''1.5e+3''
       = [\<lparr>type = Number, value = \<lparr>sv_data = 0, sv_size = 6\<rparr>, keyword_id = UNKNOWN,
            line = 1, column = 1\<rparr>]"
proof -
  have d: "is_digit (CHR ''1'')"
    by (simp add: is_class_defs char_lookup_table_def char_class_defs)
  have n: "number_rest False False ''12.5E-7.e'' = 7" by code_simp
  have e: "next_token no_keywords no_keywords (new_tokenizer ''12.5E-7.e'') =
        (\<lparr>type = Number, value = \<lparr>sv_data = 0, sv_size = 7\<rparr>, keyword_id = UNKNOWN,
           line = 1, column = 1\<rparr>,
         \<lparr>m_input = ''12.5E-7.e'', m_position = 7, m_line = 1, m_column = 8\<rparr>)"
    by code_simp
  have c: "count_list (view ''12.5E-7.e'' \<lparr>sv_data = 0, sv_size = 7\<rparr>) (CHR ''.'') = 1"
    "length (filter exponent_marker (view ''12.5E-7.e'' \<lparr>sv_data = 0, sv_size = 7\<rparr>)) = 1"
    by (simp_all add: view_def exponent_marker_def)
  show ?thesis
    using d n e c number_scan [of "new_tokenizer ''12.5E-7.e''" no_keywords no_keywords]
    by (simp add: new_tokenizer_def)
qed

end
